theory Spec2Isabelle
  imports Main
begin

section \<open>Tokens and the lexer\<close>

text \<open>
  The front end of \<^verbatim>\<open>main.py\<close> is embedded function by function.  A Python
  exception is a value of the type \<open>error\<close>; a function that may raise returns
  \<open>error + 'a\<close>, with \<open>Inl\<close> for the exception.  The message texts built by
  \<^verbatim>\<open>Parser.error\<close> are kept as structured values (\<open>message\<close>) together with the
  token index and the current token; the production announcements printed by
  \<^verbatim>\<open>pr\<close> and \<^verbatim>\<open>print\<close> have no effect on any result and are left out.
\<close>

datatype token_kind = Keyword | Operator | Separator | Identifier | Integer | Real | Unknown

text \<open>The class \<^verbatim>\<open>Token\<close>; its field \<^verbatim>\<open>line\<close> is never given a value and is omitted.\<close>

record Token =
  token_type :: token_kind
  lexeme :: string

definition KEYWORDS :: "string list" where
  "KEYWORDS = [''while'', ''endwhile'', ''if'', ''endif'', ''else'',
               ''integer'', ''boolean'', ''true'', ''false'',
               ''return'', ''print'', ''scan'']"

definition OPERATORS :: "string list" where
  "OPERATORS = [''='', ''+'', ''-'', ''*'', ''/'', ''<'', ''<='', ''>'', ''>='', ''=='', ''!='', ''=>'']"

definition SEPARATORS :: "string list" where
  "SEPARATORS = [''('', '')'', ''{'', ''}'', '';'', '','', ''['', '']'', ''$$'']"

definition is_letter :: "char \<Rightarrow> bool" where
  "is_letter c = (c \<in> set ''abcdefghijklmnopqrstuvwxyzABCDEFGHIJKLMNOPQRSTUVWXYZ'')"

definition is_digit :: "char \<Rightarrow> bool" where
  "is_digit c = (c \<in> set ''0123456789'')"

definition is_idchar :: "char \<Rightarrow> bool" where
  "is_idchar c = (is_letter c \<or> is_digit c \<or> c = CHR ''_'')"

text \<open>
  \<^verbatim>\<open>COMMENT_RE = \[\*.*?\*\]\<close> with DOTALL: a comment opens at \<^verbatim>\<open>[*\<close> and closes at the
  first \<^verbatim>\<open>*]\<close> that starts at least two characters later.  \<open>find_close\<close> returns the
  text after that first closing pair.
\<close>

fun find_close :: "string \<Rightarrow> string option" where
  "find_close (a # b # cs) =
     (if a = CHR ''*'' \<and> b = CHR '']'' then Some cs else find_close (b # cs))"
| "find_close _ = None"

lemma find_close_length: "find_close s = Some r \<Longrightarrow> length r < length s"
  by (induction s rule: find_close.induct) (auto split: if_splits)

text \<open>\<^verbatim>\<open>re.sub(COMMENT_RE, "", source_code)\<close>: every comment, leftmost first, is removed.\<close>

function strip_comments :: "string \<Rightarrow> string" where
  "strip_comments [] = []"
| "strip_comments (c # cs) =
     (if c = CHR ''['' \<and> cs \<noteq> [] \<and> hd cs = CHR ''*''
      then (case find_close (tl cs) of
              Some rest \<Rightarrow> strip_comments rest
            | None \<Rightarrow> c # strip_comments cs)
      else c # strip_comments cs)"
  by pat_completeness auto
termination
proof (relation "measure length")
  fix c :: char and cs rest
  assume "c = CHR ''['' \<and> cs \<noteq> [] \<and> hd cs = CHR ''*''" and "find_close (tl cs) = Some rest"
  then have "length rest < length (tl cs)"
    using find_close_length [of "tl cs" rest] by simp
  then show "(rest, c # cs) \<in> measure length"
    by simp
qed simp_all

text \<open>
  One match of \<^verbatim>\<open>token_pattern\<close> at the start of the text: the alternatives are tried
  in the order of the pattern,
  \<^verbatim>\<open>\$\$|=>|[a-zA-Z][a-zA-Z0-9_]*|[0-9]+\.[0-9]+|[0-9]+|[=+\-*/<>!]=?|[();,{}]\<close>,
  each greedy.  The result is the lexeme and the text after it.
\<close>

definition match_token :: "string \<Rightarrow> (string \<times> string) option" where
  "match_token s =
     (if take 2 s = ''$$'' then Some (''$$'', drop 2 s)
      else if take 2 s = ''=>'' then Some (''=>'', drop 2 s)
      else (case s of
              [] \<Rightarrow> None
            | c # cs \<Rightarrow>
                if is_letter c then Some (c # takeWhile is_idchar cs, dropWhile is_idchar cs)
                else if is_digit c then
                  (let ds = takeWhile is_digit s; r = dropWhile is_digit s
                   in if r \<noteq> [] \<and> hd r = CHR ''.'' \<and> tl r \<noteq> [] \<and> is_digit (hd (tl r))
                      then Some (ds @ CHR ''.'' # takeWhile is_digit (tl r), dropWhile is_digit (tl r))
                      else Some (ds, r))
                else if c \<in> set ''=+-*/<>!'' then
                  (if cs \<noteq> [] \<and> hd cs = CHR ''='' then Some ([c, CHR ''=''], tl cs)
                   else Some ([c], cs))
                else if c \<in> set ''();,{}'' then Some ([c], cs)
                else None))"

lemma length_dropWhile_tl: "length (dropWhile P (tl (dropWhile Q xs))) \<le> length xs"
proof -
  have "length (dropWhile P (tl (dropWhile Q xs))) \<le> length (tl (dropWhile Q xs))"
    by (rule length_dropWhile_le)
  also have "\<dots> \<le> length (dropWhile Q xs)"
    by simp
  also have "\<dots> \<le> length xs"
    by (rule length_dropWhile_le)
  finally show ?thesis .
qed

lemma match_token_length:
  assumes "match_token s = Some (w, r)"
  shows "length r < length s"
proof (cases s)
  case Nil
  with assms show ?thesis
    by (simp add: match_token_def)
next
  case (Cons c cs)
  have a: "length (dropWhile is_idchar cs) \<le> length cs"
    by (rule length_dropWhile_le)
  have b: "length (dropWhile is_digit cs) \<le> length cs"
    by (rule length_dropWhile_le)
  have d: "length (dropWhile is_digit (tl (dropWhile is_digit cs))) \<le> length cs"
    by (rule length_dropWhile_tl)
  from assms Cons a b d show ?thesis
    by (auto simp: match_token_def Let_def less_Suc_eq_le split: if_splits)
qed

text \<open>\<^verbatim>\<open>re.findall(token_pattern, source_code)\<close>: where nothing matches, one character is skipped.\<close>

function findall :: "string \<Rightarrow> string list" where
  "findall [] = []"
| "findall (c # cs) =
     (case match_token (c # cs) of
        Some (w, rest) \<Rightarrow> w # findall rest
      | None \<Rightarrow> findall cs)"
  by pat_completeness auto
termination
proof (relation "measure length")
  fix c :: char and cs x2 w rest
  assume "match_token (c # cs) = Some x2" and "(w, rest) = x2"
  then have "length rest < length (c # cs)"
    using match_token_length [of "c # cs" w rest] by simp
  then show "(rest, c # cs) \<in> measure length"
    by simp
qed simp_all

text \<open>The three \<^verbatim>\<open>re.fullmatch\<close> tests of the classification.\<close>

definition is_identifier :: "string \<Rightarrow> bool" where
  "is_identifier w = (w \<noteq> [] \<and> is_letter (hd w) \<and> list_all is_idchar (tl w))"

definition is_integer :: "string \<Rightarrow> bool" where
  "is_integer w = (w \<noteq> [] \<and> list_all is_digit w)"

definition is_real :: "string \<Rightarrow> bool" where
  "is_real w =
     (let a = takeWhile is_digit w; r = dropWhile is_digit w
      in a \<noteq> [] \<and> r \<noteq> [] \<and> hd r = CHR ''.'' \<and> tl r \<noteq> [] \<and> list_all is_digit (tl r))"

definition classify :: "string \<Rightarrow> Token" where
  "classify word =
     (if word \<in> set KEYWORDS then \<lparr>token_type = Keyword, lexeme = word\<rparr>
      else if word \<in> set OPERATORS then \<lparr>token_type = Operator, lexeme = word\<rparr>
      else if word \<in> set SEPARATORS then \<lparr>token_type = Separator, lexeme = word\<rparr>
      else if is_identifier word then \<lparr>token_type = Identifier, lexeme = word\<rparr>
      else if is_integer word then \<lparr>token_type = Integer, lexeme = word\<rparr>
      else if is_real word then \<lparr>token_type = Real, lexeme = word\<rparr>
      else \<lparr>token_type = Unknown, lexeme = word\<rparr>)"

definition lexer :: "string \<Rightarrow> Token list" where
  "lexer source_code = map classify (findall (strip_comments source_code))"


section \<open>Compiler state: symbol table and instruction stream\<close>

text \<open>
  \<open>message\<close> is the text handed to \<^verbatim>\<open>Parser.error\<close>, reduced to its varying parts:
  \<open>Expected k l\<close> is the message of \<^verbatim>\<open>match\<close> (\<^verbatim>\<open>Expected <type> '<lexeme>', found ...\<close>),
  \<open>UsedWithoutDeclaration x\<close> is
  \<^verbatim>\<open>Semantic Error: Identifier 'x' used without declaration.\<close>
\<close>

datatype message =
    Expected token_kind "string option"
  | ExpectedTypeQualifier
  | ExpectedIdentifier
  | UsedWithoutDeclaration string
  | UnexpectedKeyword string
  | UnexpectedToken
  | ExpectedExpression

text \<open>
  \<open>SyntaxError m i t\<close> is the exception of \<^verbatim>\<open>Parser.error\<close> with the token index and the
  current token; \<open>AlreadyDeclared x\<close> is the exception of \<^verbatim>\<open>insert_identifier\<close>; the next
  four are Python's own exceptions (a missing dictionary key, an attribute of \<^verbatim>\<open>None\<close>, an
  index out of range, \<^verbatim>\<open>int\<close> of a text that is no number).  \<open>OutOfFuel\<close> is
  not an exception of the program: it is the result of a recursive function of the model
  whose recursion bound is used up.
\<close>

datatype error =
    SyntaxError message nat "Token option"
  | AlreadyDeclared string
  | KeyError string
  | AttributeError
  | IndexError
  | ValueError
  | OutOfFuel

datatype operand = Num int | Name string

text \<open>
  An entry of \<^verbatim>\<open>instructions\<close>.  The program stores a formatted line, position, opcode,
  arguments and comment; the model keeps the four parts.
\<close>

record instruction =
  pos :: nat
  opcode :: string
  operands :: "operand list"
  comment :: "string option"

text \<open>
  The module globals (\<^verbatim>\<open>instructions\<close>, \<^verbatim>\<open>instr_ptr\<close>, \<^verbatim>\<open>Memory_Address\<close>,
  \<^verbatim>\<open>symbol_table\<close>) and the fields of the \<^verbatim>\<open>Parser\<close> object.  The dictionary
  \<^verbatim>\<open>symbol_table\<close> keeps its insertion order and is an association list with the newest
  entry last.  \<^verbatim>\<open>current_token\<close> is always the token at \<^verbatim>\<open>current_token_index\<close>, or
  \<^verbatim>\<open>None\<close> past the end, and is computed from the index.
\<close>

record state =
  tokens :: "Token list"
  current_token_index :: nat
  symbol_table :: "(string \<times> int \<times> string) list"
  Memory_Address :: int
  instructions :: "instruction option list"
  instr_ptr :: nat

definition MAX_INSTR :: nat where
  "MAX_INSTR = 1000"

definition current_token :: "state \<Rightarrow> Token option" where
  "current_token st =
     (if current_token_index st < length (tokens st)
      then Some (tokens st ! current_token_index st) else None)"

text \<open>Python's \<^verbatim>\<open>xs[i] = v\<close>: a negative index counts from the end, an index out of range raises.\<close>

definition py_setitem :: "'a list \<Rightarrow> int \<Rightarrow> 'a \<Rightarrow> error + 'a list" where
  "py_setitem xs i v =
     (if 0 \<le> i \<and> i < int (length xs) then Inr (xs[nat i := v])
      else if i < 0 \<and> - int (length xs) \<le> i then Inr (xs[nat (int (length xs) + i) := v])
      else Inl IndexError)"

definition emit :: "string \<Rightarrow> operand list \<Rightarrow> string option \<Rightarrow> state \<Rightarrow> error + state" where
  "emit op args cmt st =
     (case py_setitem (instructions st) (int (instr_ptr st) - 1)
             (Some \<lparr>pos = instr_ptr st, opcode = op, operands = args, comment = cmt\<rparr>) of
        Inl e \<Rightarrow> Inl e
      | Inr xs \<Rightarrow> Inr (st\<lparr>instructions := xs, instr_ptr := instr_ptr st + 1\<rparr>))"

definition is_declared :: "state \<Rightarrow> string \<Rightarrow> bool" where
  "is_declared st name = (name \<in> set (map fst (symbol_table st)))"

definition insert_identifier :: "string \<Rightarrow> string \<Rightarrow> state \<Rightarrow> error + state" where
  "insert_identifier name var_type st =
     (if is_declared st name then Inl (AlreadyDeclared name)
      else Inr (st\<lparr>symbol_table := symbol_table st @ [(name, Memory_Address st, var_type)],
                   Memory_Address := Memory_Address st + 1\<rparr>))"

text \<open>\<^verbatim>\<open>symbol_table[name]\<close>.\<close>

definition lookup :: "state \<Rightarrow> string \<Rightarrow> error + int \<times> string" where
  "lookup st name =
     (case map_of (symbol_table st) name of None \<Rightarrow> Inl (KeyError name) | Some v \<Rightarrow> Inr v)"

section \<open>The parser\<close>

text \<open>Statements run one after the other; the first exception ends the sequence.\<close>

fun seq :: "(state \<Rightarrow> error + state) list \<Rightarrow> state \<Rightarrow> error + state" where
  "seq [] st = Inr st"
| "seq (f # fs) st = (case f st of Inl e \<Rightarrow> Inl e | Inr st' \<Rightarrow> seq fs st')"

declare seq.simps [simp del]

lemma seq_Nil_Inr: "seq [] st = Inr st' \<longleftrightarrow> st' = st"
  by (auto simp: seq.simps)

lemma seq_Cons_Inr:
  "seq (f # fs) st = Inr st' \<longleftrightarrow> (\<exists>st1. f st = Inr st1 \<and> seq fs st1 = Inr st')"
  by (auto simp: seq.simps split: sum.splits)

definition advance :: "state \<Rightarrow> state" where
  "advance st = st\<lparr>current_token_index := current_token_index st + 1\<rparr>"

definition error :: "message \<Rightarrow> state \<Rightarrow> error + state" where
  "error msg st = Inl (SyntaxError msg (current_token_index st) (current_token st))"

definition match :: "token_kind \<Rightarrow> string option \<Rightarrow> state \<Rightarrow> error + state" where
  "match expected_type expected_lexeme st =
     (case current_token st of
        Some t \<Rightarrow>
          if token_type t = expected_type \<and>
             (expected_lexeme = None \<or> expected_lexeme = Some (lexeme t))
          then Inr (advance st)
          else error (Expected expected_type expected_lexeme) st
      | None \<Rightarrow> error (Expected expected_type expected_lexeme) st)"

text \<open>
  The test \<^verbatim>\<open>self.current_token and self.current_token.token_type == k and
  self.current_token.lexeme in ls\<close> that guards the optional parts of the grammar.
\<close>

definition at_token :: "token_kind \<Rightarrow> string list \<Rightarrow> state \<Rightarrow> bool" where
  "at_token k ls st =
     (case current_token st of
        Some t \<Rightarrow> token_type t = k \<and> lexeme t \<in> set ls
      | None \<Rightarrow> False)"

definition qualifier :: "state \<Rightarrow> error + state" where
  "qualifier st =
     (case current_token st of
        None \<Rightarrow> Inl AttributeError
      | Some t \<Rightarrow>
          if lexeme t \<in> set [''integer'', ''boolean''] then match Keyword None st
          else error ExpectedTypeQualifier st)"

text \<open>
  The body of the first \<^verbatim>\<open>if\<close> of the loop in \<^verbatim>\<open>ids\<close>, for an identifier \<open>name\<close>:
  a declaration context (\<^verbatim>\<open>var_type\<close> is a non-empty text) declares it, any other context
  requires it to be declared.
\<close>

definition ids_action :: "string option \<Rightarrow> string \<Rightarrow> state \<Rightarrow> error + state" where
  "ids_action var_type name st =
     (case var_type of
        Some ty \<Rightarrow>
          if ty \<noteq> [] then insert_identifier name ty st
          else if \<not> is_declared st name then error (UsedWithoutDeclaration name) st
          else Inr st
      | None \<Rightarrow>
          if \<not> is_declared st name then error (UsedWithoutDeclaration name) st
          else Inr st)"


lemma match_Inr:
  "match k l st = Inr st' \<Longrightarrow>
     st' = advance st \<and> current_token_index st < length (tokens st)"
  by (auto simp: match_def error_def current_token_def split: option.splits if_splits)

lemma ids_action_Inr:
  "ids_action vt name st = Inr st' \<Longrightarrow>
     tokens st' = tokens st \<and> current_token_index st' = current_token_index st"
  by (auto simp: ids_action_def insert_identifier_def error_def split: option.splits if_splits)

text \<open>
  \<^verbatim>\<open>ids\<close>: the loop \<^verbatim>\<open>while True\<close> is the recursion; the \<^verbatim>\<open>break\<close> is the result
  \<open>Inr\<close> of the last branch.
\<close>

function ids :: "string option \<Rightarrow> state \<Rightarrow> error + state" where
  "ids var_type st =
     (case current_token st of
        None \<Rightarrow> error ExpectedIdentifier st
      | Some t \<Rightarrow>
          if token_type t = Identifier
          then (case seq [ids_action var_type (lexeme t), match Identifier None] st of
                  Inl e \<Rightarrow> Inl e
                | Inr st' \<Rightarrow>
                    if at_token Separator ['',''] st'
                    then (case match Separator (Some '','') st' of
                            Inl e \<Rightarrow> Inl e
                          | Inr st'' \<Rightarrow> ids var_type st'')
                    else Inr st')
          else error ExpectedIdentifier st)"
  by pat_completeness auto
termination
proof (relation "measure (\<lambda>(vt, st). length (tokens st) - current_token_index st)")
  fix var_type :: "string option" and st st' st'' :: state and t :: Token
  assume a: "seq [ids_action var_type (lexeme t), match Identifier None] st = Inr st'"
    and b: "match Separator (Some '','') st' = Inr st''"
  from a obtain st1 where
    s1: "ids_action var_type (lexeme t) st = Inr st1"
    and s2: "match Identifier None st1 = Inr st'"
    by (auto simp: seq_Cons_Inr seq_Nil_Inr)
  from s1 s2 b have "tokens st'' = tokens st"
    and "current_token_index st'' = current_token_index st + 2"
    and "current_token_index st + 1 < length (tokens st)"
    by (auto dest!: match_Inr ids_action_Inr simp: advance_def)
  then show "((var_type, st''), (var_type, st))
      \<in> measure (\<lambda>(vt, st). length (tokens st) - current_token_index st)"
    by simp
qed simp

declare ids.simps [simp del]

text \<open>\<^verbatim>\<open>Parser.declaration\<close> (the name alone is a keyword of Isabelle).\<close>

definition declaration_prod :: "state \<Rightarrow> error + state" where
  "declaration_prod st =
     (case current_token st of
        None \<Rightarrow> Inl AttributeError
      | Some t \<Rightarrow> seq [qualifier, ids (Some (lexeme t))] st)"




text \<open>
  A parser function makes progress when it keeps the token list and never moves the
  index back (nor past the end of the list); strict progress consumes at least one token.
\<close>

definition progress :: "(state \<Rightarrow> error + state) \<Rightarrow> bool" where
  "progress f \<longleftrightarrow>
     (\<forall>st st'. f st = Inr st' \<longrightarrow>
        tokens st' = tokens st \<and> current_token_index st \<le> current_token_index st' \<and>
        (current_token_index st \<le> length (tokens st) \<longrightarrow>
         current_token_index st' \<le> length (tokens st)))"

definition strict_progress :: "(state \<Rightarrow> error + state) \<Rightarrow> bool" where
  "strict_progress f \<longleftrightarrow>
     (\<forall>st st'. f st = Inr st' \<longrightarrow>
        tokens st' = tokens st \<and> current_token_index st < current_token_index st' \<and>
        current_token_index st' \<le> length (tokens st))"

lemma progressI:
  assumes "\<And>st st'. f st = Inr st' \<Longrightarrow>
     tokens st' = tokens st \<and> current_token_index st \<le> current_token_index st' \<and>
        (current_token_index st \<le> length (tokens st) \<longrightarrow>
         current_token_index st' \<le> length (tokens st))"
  shows "progress f"
  using assms unfolding progress_def by blast

lemma strict_progressI:
  assumes "\<And>st st'. f st = Inr st' \<Longrightarrow>
     tokens st' = tokens st \<and> current_token_index st < current_token_index st' \<and>
        current_token_index st' \<le> length (tokens st)"
  shows "strict_progress f"
  using assms unfolding strict_progress_def by blast

lemma progressD:
  "progress f \<Longrightarrow> f st = Inr st' \<Longrightarrow>
     tokens st' = tokens st \<and> current_token_index st \<le> current_token_index st' \<and>
        (current_token_index st \<le> length (tokens st) \<longrightarrow>
         current_token_index st' \<le> length (tokens st))"
  unfolding progress_def by blast

lemma strict_progressD:
  "strict_progress f \<Longrightarrow> f st = Inr st' \<Longrightarrow>
     tokens st' = tokens st \<and> current_token_index st < current_token_index st' \<and>
     current_token_index st' \<le> length (tokens st)"
  unfolding strict_progress_def by blast

lemma strict_progress_imp: "strict_progress f \<Longrightarrow> progress f"
  by (rule progressI, drule (1) strict_progressD) simp

lemma progress_seq_Nil: "progress (seq [])"
  by (rule progressI) (simp add: seq_Nil_Inr)

lemma progress_seq_Cons:
  assumes "progress f" and "progress (seq fs)"
  shows "progress (seq (f # fs))"
proof (rule progressI)
  fix st st' assume "seq (f # fs) st = Inr st'"
  then obtain st1 where a: "f st = Inr st1" and b: "seq fs st1 = Inr st'"
    unfolding seq_Cons_Inr by blast
  from progressD [OF assms(1) a] progressD [OF assms(2) b]
  show "tokens st' = tokens st \<and> current_token_index st \<le> current_token_index st' \<and>
        (current_token_index st \<le> length (tokens st) \<longrightarrow>
         current_token_index st' \<le> length (tokens st))"
    by simp
qed

lemma strict_progress_seq_first:
  assumes "strict_progress f" and "progress (seq fs)"
  shows "strict_progress (seq (f # fs))"
proof (rule strict_progressI)
  fix st st' assume "seq (f # fs) st = Inr st'"
  then obtain st1 where a: "f st = Inr st1" and b: "seq fs st1 = Inr st'"
    unfolding seq_Cons_Inr by blast
  from strict_progressD [OF assms(1) a] progressD [OF assms(2) b]
  show "tokens st' = tokens st \<and> current_token_index st < current_token_index st' \<and>
        current_token_index st' \<le> length (tokens st)"
    by simp
qed

lemma strict_progress_seq_later:
  assumes "progress f" and "strict_progress (seq fs)"
  shows "strict_progress (seq (f # fs))"
proof (rule strict_progressI)
  fix st st' assume "seq (f # fs) st = Inr st'"
  then obtain st1 where a: "f st = Inr st1" and b: "seq fs st1 = Inr st'"
    unfolding seq_Cons_Inr by blast
  from progressD [OF assms(1) a] strict_progressD [OF assms(2) b]
  show "tokens st' = tokens st \<and> current_token_index st < current_token_index st' \<and>
        current_token_index st' \<le> length (tokens st)"
    by simp
qed

lemma strict_progress_match: "strict_progress (match k l)"
  by (rule strict_progressI, drule match_Inr) (simp add: advance_def)

lemma progress_emit: "progress (emit op args cmt)"
  by (rule progressI) (auto simp: emit_def split: sum.splits)

lemma progress_ids_action: "progress (ids_action vt name)"
  by (rule progressI, drule ids_action_Inr) simp

lemma strict_progress_qualifier: "strict_progress qualifier"
proof (rule strict_progressI)
  fix st st' assume "qualifier st = Inr st'"
  then have "match Keyword None st = Inr st'"
    by (simp add: qualifier_def error_def split: option.splits if_splits)
  from strict_progressD [OF strict_progress_match this]
  show "tokens st' = tokens st \<and> current_token_index st < current_token_index st' \<and>
        current_token_index st' \<le> length (tokens st)" .
qed

lemma strict_progress_ids: "strict_progress (ids vt)"
proof (rule strict_progressI)
  fix st st'
  show "ids vt st = Inr st' \<Longrightarrow> tokens st' = tokens st \<and> current_token_index st < current_token_index st' \<and>
        current_token_index st' \<le> length (tokens st)"
  proof (induction vt st arbitrary: st' rule: ids.induct)
    case (1 var_type st)
    from "1.prems" obtain t where t: "current_token st = Some t" "token_type t = Identifier"
      by (subst (asm) ids.simps) (auto simp: error_def split: option.splits if_splits)
    from "1.prems" t obtain s1 where
      s1: "seq [ids_action var_type (lexeme t), match Identifier None] st = Inr s1"
      by (subst (asm) ids.simps) (auto split: sum.splits)
    have sp: "strict_progress (seq [ids_action var_type (lexeme t), match Identifier None])"
      by (intro strict_progress_seq_later progress_ids_action strict_progress_seq_first
            strict_progress_match progress_seq_Nil)
    note p1 = strict_progressD [OF sp s1]
    show ?case
    proof (cases "at_token Separator ['',''] s1")
      case False
      with "1.prems" t s1 have "st' = s1"
        by (subst (asm) ids.simps) simp
      with p1 show ?thesis by simp
    next
      case True
      with "1.prems" t s1 obtain s2 where
        s2: "match Separator (Some '','') s1 = Inr s2" and r: "ids var_type s2 = Inr st'"
        by (subst (asm) ids.simps) (auto split: sum.splits)
      note p2 = strict_progressD [OF strict_progress_match s2]
      from "1.IH" [OF t(1) t(2) s1 True s2 r] p1 p2 show ?thesis
        by simp
    qed
  qed
qed

lemma strict_progress_declaration: "strict_progress declaration_prod"
proof (rule strict_progressI)
  fix st st' assume a: "declaration_prod st = Inr st'"
  then obtain t :: Token where "seq [qualifier, ids (Some (lexeme t))] st = Inr st'"
    by (cases "current_token st") (auto simp: declaration_prod_def)
  moreover have "strict_progress (seq [qualifier, ids (Some (lexeme t))])"
    by (intro strict_progress_seq_first strict_progress_qualifier progress_seq_Cons
          strict_progress_imp strict_progress_ids progress_seq_Nil)
  ultimately show "tokens st' = tokens st \<and> current_token_index st < current_token_index st' \<and>
        current_token_index st' \<le> length (tokens st)"
    by (rule strict_progressD [rotated])
qed



text \<open>
  The loop of \<^verbatim>\<open>declaration_list\<close>.  The keyword \<^verbatim>\<open>real\<close> continues the loop although
  \<^verbatim>\<open>qualifier\<close> then rejects it.
\<close>

function declaration_loop :: "state \<Rightarrow> error + state" where
  "declaration_loop st =
     (if at_token Keyword [''integer'', ''boolean'', ''real''] st
      then (case seq [declaration_prod, match Separator (Some '';'')] st of
              Inl e \<Rightarrow> Inl e
            | Inr st' \<Rightarrow> declaration_loop st')
      else Inr st)"
  by pat_completeness auto
termination
proof (relation "measure (\<lambda>st. length (tokens st) - current_token_index st)")
  fix st st' :: state
  assume "seq [declaration_prod, match Separator (Some '';'')] st = Inr st'"
  moreover have "strict_progress (seq [declaration_prod, match Separator (Some '';'')])"
    by (intro strict_progress_seq_first strict_progress_declaration progress_seq_Cons
          strict_progress_imp strict_progress_match progress_seq_Nil)
  ultimately have "tokens st' = tokens st \<and> current_token_index st < current_token_index st' \<and>
      current_token_index st' \<le> length (tokens st)"
    by (rule strict_progressD [rotated])
  then show "(st', st) \<in> measure (\<lambda>st. length (tokens st) - current_token_index st)"
    by (auto intro: diff_less_mono2)
qed simp

declare declaration_loop.simps [simp del]

definition declaration_list :: "state \<Rightarrow> error + state" where
  "declaration_list = seq [declaration_prod, match Separator (Some '';''), declaration_loop]"

definition opt_declaration_list :: "state \<Rightarrow> error + state" where
  "opt_declaration_list st =
     (if at_token Keyword [''integer'', ''boolean''] st then declaration_list st else Inr st)"

text \<open>
  \<^verbatim>\<open>int(lexeme)\<close> on a text of decimal digits, the only texts the lexer classifies as
  \<^verbatim>\<open>integer\<close>.  (On other texts the model raises; Python's \<^verbatim>\<open>int\<close> accepts a few more
  forms, signs, blanks and underscores, that no token of the lexer has.)
\<close>

definition digit_value :: "char \<Rightarrow> int" where
  "digit_value c = int (of_char c) - 48"

definition py_int :: "string \<Rightarrow> error + int" where
  "py_int s =
     (if is_integer s then Inr (foldl (\<lambda>acc c. 10 * acc + digit_value c) 0 s)
      else Inl ValueError)"

text \<open>
  The first half of \<^verbatim>\<open>expression\<close>: the \<^verbatim>\<open>if\<close>/\<^verbatim>\<open>elif\<close> chain that parses one operand
  (integer literal, identifier, boolean literal) and emits its push.
\<close>

definition expression_operand :: "state \<Rightarrow> error + state" where
  "expression_operand st =
     (case current_token st of
        None \<Rightarrow> Inl AttributeError
      | Some t \<Rightarrow>
          if token_type t = Integer then
            (case py_int (lexeme t) of
               Inl e \<Rightarrow> Inl e
             | Inr val \<Rightarrow> seq [match Integer None, emit ''PUSHI'' [Num val] None] st)
          else if token_type t = Identifier then
            (if \<not> is_declared st (lexeme t) then error (UsedWithoutDeclaration (lexeme t)) st
             else (case lookup st (lexeme t) of
                     Inl e \<Rightarrow> Inl e
                   | Inr (addr, ty) \<Rightarrow>
                       seq [match Identifier None, emit ''PUSHM'' [Num addr] None] st))
          else if token_type t = Keyword \<and> lexeme t \<in> set [''true'', ''false''] then
            seq [match Keyword None,
                 emit ''PUSHI'' [Num (if lexeme t = ''true'' then 1 else 0)] None] st
          else error ExpectedExpression st)"

text \<open>The \<^verbatim>\<open>if\<close>/\<^verbatim>\<open>elif\<close> chain at the end of the operator loop of \<^verbatim>\<open>expression\<close>.\<close>

definition emit_arith :: "string \<Rightarrow> state \<Rightarrow> error + state" where
  "emit_arith op st =
     (if op = ''+'' then emit ''A'' [] None st
      else if op = ''-'' then emit ''S'' [] None st
      else if op = ''*'' then emit ''M'' [] None st
      else if op = ''/'' then emit ''D'' [] None st
      else Inr st)"

text \<open>
  \<^verbatim>\<open>expression\<close> calls itself for the right operand of every operator, so the recursion
  is bounded by a first argument that each call decreases; \<open>binary_operators\<close> is the
  \<^verbatim>\<open>while\<close> loop of \<^verbatim>\<open>expression\<close>.  (Python bounds the depth too, by its recursion
  limit; the model does not.)  The methods \<^verbatim>\<open>term\<close>, \<^verbatim>\<open>factor\<close> and \<^verbatim>\<open>primary\<close> of the
  class are called by no method that \<^verbatim>\<open>parse_rat25s\<close> reaches, \<^verbatim>\<open>expression\<close> least of
  all, and are not part of the model.
\<close>

fun expression :: "nat \<Rightarrow> state \<Rightarrow> error + state"
  and binary_operators :: "nat \<Rightarrow> state \<Rightarrow> error + state" where
  "expression 0 st = Inl OutOfFuel"
| "expression (Suc n) st =
     (case expression_operand st of
        Inl e \<Rightarrow> Inl e
      | Inr st' \<Rightarrow> binary_operators n st')"
| "binary_operators 0 st = Inl OutOfFuel"
| "binary_operators (Suc n) st =
     (if at_token Operator [''+'', ''-'', ''*'', ''/''] st
      then (case seq [match Operator None, expression n,
                      emit_arith (lexeme (tokens st ! current_token_index st))] st of
              Inl e \<Rightarrow> Inl e
            | Inr st' \<Rightarrow> binary_operators n st')
      else Inr st)"

definition cmp_map :: "(string \<times> string) list" where
  "cmp_map = [(''<'', ''CMP_LT''), (''>'', ''CMP_GT''), (''=='', ''CMP_EQ''),
              (''!='', ''CMP_NE''), (''<='', ''CMP_LE''), (''>='', ''CMP_GE'')]"

definition condition :: "nat \<Rightarrow> state \<Rightarrow> error + state" where
  "condition n st =
     (case expression n st of
        Inl e \<Rightarrow> Inl e
      | Inr st1 \<Rightarrow>
          (case current_token st1 of
             None \<Rightarrow> Inl AttributeError
           | Some t \<Rightarrow>
               (case seq [match Operator None, expression n] st1 of
                  Inl e \<Rightarrow> Inl e
                | Inr st2 \<Rightarrow>
                    (case map_of cmp_map (lexeme t) of
                       None \<Rightarrow> Inl (KeyError (lexeme t))
                     | Some c \<Rightarrow> emit c [] (Some (''compare '' @ lexeme t)) st2))))"

definition assignment :: "nat \<Rightarrow> state \<Rightarrow> error + state" where
  "assignment n st =
     (case current_token st of
        None \<Rightarrow> Inl AttributeError
      | Some t \<Rightarrow>
          seq [match Identifier None, match Operator (Some ''=''), expression n,
               match Separator (Some '';''),
               emit ''STO'' [Name (lexeme t)] (Some (lexeme t @ '' = <expr>''))] st)"

definition scan_statement :: "state \<Rightarrow> error + state" where
  "scan_statement st =
     (case seq [match Keyword (Some ''scan''), match Separator (Some ''('')] st of
        Inl e \<Rightarrow> Inl e
      | Inr st1 \<Rightarrow>
          (case current_token st1 of
             None \<Rightarrow> Inl AttributeError
           | Some t \<Rightarrow>
               (case seq [match Identifier None, match Separator (Some '')''),
                          match Separator (Some '';'')] st1 of
                  Inl e \<Rightarrow> Inl e
                | Inr st2 \<Rightarrow>
                    (case lookup st2 (lexeme t) of
                       Inl e \<Rightarrow> Inl e
                     | Inr (addr, ty) \<Rightarrow>
                         seq [emit ''SIN'' [] None, emit ''POPM'' [Num addr] None] st2))))"

text \<open>\<^verbatim>\<open>Parser.print_statement\<close> (the name alone is a keyword of Isabelle).\<close>

definition print_statement_prod :: "nat \<Rightarrow> state \<Rightarrow> error + state" where
  "print_statement_prod n =
     seq [match Keyword (Some ''print''), match Separator (Some ''(''), expression n,
          match Separator (Some '')''), match Separator (Some '';''),
          emit ''SOUT'' [] None]"

definition return_statement :: "nat \<Rightarrow> state \<Rightarrow> error + state" where
  "return_statement n st =
     (case match Keyword (Some ''return'') st of
        Inl e \<Rightarrow> Inl e
      | Inr st1 \<Rightarrow>
          (case current_token st1 of
             None \<Rightarrow> match Separator (Some '';'') st1
           | Some t \<Rightarrow>
               if lexeme t \<noteq> '';''
               then seq [expression n, match Separator (Some '';'')] st1
               else match Separator (Some '';'') st1))"

text \<open>
  The assignment \<^verbatim>\<open>instructions[patch_slot-1] = f"{patch_slot} JMP0 {exit_target}"\<close> of
  \<^verbatim>\<open>while_statement\<close>.
\<close>

definition patch :: "nat \<Rightarrow> nat \<Rightarrow> state \<Rightarrow> error + state" where
  "patch patch_slot exit_target st =
     (case py_setitem (instructions st) (int patch_slot - 1)
             (Some \<lparr>pos = patch_slot, opcode = ''JMP0'',
                    operands = [Num (int exit_target)], comment = None\<rparr>) of
        Inl e \<Rightarrow> Inl e
      | Inr xs \<Rightarrow> Inr (st\<lparr>instructions := xs\<rparr>))"

text \<open>
  The statements call each other; the first argument bounds the depth of the calls, and
  each call (and each round of the loop of \<^verbatim>\<open>statement_list\<close>) passes on one less.
\<close>

fun statement_list :: "nat \<Rightarrow> string list \<Rightarrow> state \<Rightarrow> error + state"
  and statement :: "nat \<Rightarrow> state \<Rightarrow> error + state"
  and compound_statement :: "nat \<Rightarrow> state \<Rightarrow> error + state"
  and while_statement :: "nat \<Rightarrow> state \<Rightarrow> error + state"
  and if_statement :: "nat \<Rightarrow> state \<Rightarrow> error + state" where
  "statement_list 0 terminators st = Inl OutOfFuel"
| "statement_list (Suc n) terminators st =
     (case current_token st of
        None \<Rightarrow> Inr st
      | Some t \<Rightarrow>
          if lexeme t \<notin> set terminators
          then (case statement n st of
                  Inl e \<Rightarrow> Inl e
                | Inr st' \<Rightarrow> statement_list n terminators st')
          else Inr st)"
| "statement 0 st = Inl OutOfFuel"
| "statement (Suc n) st =
     (case current_token st of
        None \<Rightarrow> Inl AttributeError
      | Some t \<Rightarrow>
          if token_type t = Separator \<and> lexeme t = ''{'' then compound_statement n st
          else if token_type t = Keyword then
            (if lexeme t = ''if'' then if_statement n st
             else if lexeme t = ''while'' then while_statement n st
             else if lexeme t = ''return'' then return_statement n st
             else if lexeme t = ''print'' then print_statement_prod n st
             else if lexeme t = ''scan'' then scan_statement st
             else error (UnexpectedKeyword (lexeme t)) st)
          else if token_type t = Identifier then assignment n st
          else error UnexpectedToken st)"
| "compound_statement 0 st = Inl OutOfFuel"
| "compound_statement (Suc n) st =
     seq [match Separator (Some ''{''), statement_list n [''}''],
          match Separator (Some ''}'')] st"
| "while_statement 0 st = Inl OutOfFuel"
| "while_statement (Suc n) st =
     (case seq [match Keyword (Some ''while''), match Separator (Some ''(''), condition n,
                match Separator (Some '')'')] st of
        Inl e \<Rightarrow> Inl e
      | Inr st1 \<Rightarrow>
          (case emit ''LABEL'' [] None st1 of
             Inl e \<Rightarrow> Inl e
           | Inr st2 \<Rightarrow>
               (case seq [emit ''JMP0'' [Num 0] None, match Separator (Some ''{''),
                          statement_list n [''}''], match Separator (Some ''}''),
                          emit ''JMP'' [Num (int (instr_ptr st1))] None] st2 of
                  Inl e \<Rightarrow> Inl e
                | Inr st3 \<Rightarrow>
                    seq [patch (instr_ptr st2) (instr_ptr st3),
                         match Keyword (Some ''endwhile'')] st3)))"
| "if_statement 0 st = Inl OutOfFuel"
| "if_statement (Suc n) st =
     (case seq [match Keyword (Some ''if''), match Separator (Some ''(''), condition n,
                match Separator (Some '')''), statement n] st of
        Inl e \<Rightarrow> Inl e
      | Inr st1 \<Rightarrow>
          (case current_token st1 of
             None \<Rightarrow> match Keyword (Some ''endif'') st1
           | Some t \<Rightarrow>
               if lexeme t = ''else''
               then seq [match Keyword (Some ''else''), statement n,
                         match Keyword (Some ''endif'')] st1
               else match Keyword (Some ''endif'') st1))"

text \<open>The loop of \<^verbatim>\<open>parse_rat25s\<close> that accepts further delimiters after the first.\<close>

function delimiter_loop :: "state \<Rightarrow> error + state" where
  "delimiter_loop st =
     (if at_token Separator [''$$''] st
      then (case match Separator (Some ''$$'') st of
              Inl e \<Rightarrow> Inl e
            | Inr st' \<Rightarrow> delimiter_loop st')
      else Inr st)"
  by pat_completeness auto
termination
proof (relation "measure (\<lambda>st. length (tokens st) - current_token_index st)")
  fix st st' :: state
  assume "match Separator (Some ''$$'') st = Inr st'"
  from strict_progressD [OF strict_progress_match this]
  show "(st', st) \<in> measure (\<lambda>st. length (tokens st) - current_token_index st)"
    by (auto intro: diff_less_mono2)
qed simp

declare delimiter_loop.simps [simp del]

definition optional_delimiter :: "state \<Rightarrow> error + state" where
  "optional_delimiter st =
     (if at_token Separator [''$$''] st then match Separator (Some ''$$'') st else Inr st)"

definition parse_rat25s :: "nat \<Rightarrow> state \<Rightarrow> error + state" where
  "parse_rat25s n =
     seq [match Separator (Some ''$$''), delimiter_loop, opt_declaration_list,
          optional_delimiter, statement_list n [''$$''], match Separator (Some ''$$'')]"

text \<open>
  One round of the loop of \<^verbatim>\<open>main\<close> without its file handling: the reset of the globals,
  the lexer, a new \<^verbatim>\<open>Parser\<close> and \<^verbatim>\<open>parse_rat25s\<close>.
\<close>

definition reset :: "Token list \<Rightarrow> state" where
  "reset toks =
     \<lparr>tokens = toks, current_token_index = 0, symbol_table = [], Memory_Address = 10000,
      instructions = replicate MAX_INSTR None, instr_ptr = 1\<rparr>"

definition run :: "nat \<Rightarrow> string \<Rightarrow> error + state" where
  "run n source_code = parse_rat25s n (reset (lexer source_code))"

text \<open>
  \<^verbatim>\<open>print_assembly\<close> lists the slots below \<^verbatim>\<open>instr_ptr\<close> in order and skips the empty
  ones; the model returns the list of the instructions it prints.
\<close>

definition print_assembly :: "state \<Rightarrow> instruction list" where
  "print_assembly st = List.map_filter (\<lambda>x. x) (take (instr_ptr st - 1) (instructions st))"

text \<open>
  A run on a source text.  The bound on the depth of the calls is computed from the number
  of tokens; \<open>compile\<close> is the run with that bound.
\<close>

definition depth_bound :: "Token list \<Rightarrow> nat" where
  "depth_bound toks = 3 * length toks + 8"

definition compile :: "string \<Rightarrow> error + state" where
  "compile source_code = run (depth_bound (lexer source_code)) source_code"

section \<open>Relations that every parser function respects\<close>

lemma bind_Inr_iff:
  "(case x of Inl e \<Rightarrow> Inl e | Inr a \<Rightarrow> g a) = Inr y \<longleftrightarrow> (\<exists>a. x = Inr a \<and> g a = Inr y)"
  by (cases x) simp_all

lemma option_Inr_iff:
  "(case x of None \<Rightarrow> Inl e | Some t \<Rightarrow> g t) = Inr y \<longleftrightarrow> (\<exists>t. x = Some t \<and> g t = Inr y)"
  by (cases x) simp_all

definition step_rel :: "(state \<Rightarrow> state \<Rightarrow> bool) \<Rightarrow> (state \<Rightarrow> error + state) \<Rightarrow> bool" where
  "step_rel R f \<longleftrightarrow> (\<forall>st st'. f st = Inr st' \<longrightarrow> R st st')"

definition closed_rel :: "(state \<Rightarrow> state \<Rightarrow> bool) \<Rightarrow> bool" where
  "closed_rel R \<longleftrightarrow>
     (\<forall>st. R st st) \<and> (\<forall>a b c. R a b \<longrightarrow> R b c \<longrightarrow> R a c) \<and>
     (\<forall>k l. step_rel R (match k l)) \<and> (\<forall>op args cmt. step_rel R (emit op args cmt))"

definition patch_rel :: "(state \<Rightarrow> state \<Rightarrow> bool) \<Rightarrow> bool" where
  "patch_rel R \<longleftrightarrow>
     (\<forall>st1 st2 st3 st4.
        emit ''LABEL'' [] None st1 = Inr st2 \<longrightarrow> R st2 st3 \<longrightarrow>
        patch (instr_ptr st2) (instr_ptr st3) st3 = Inr st4 \<longrightarrow> R st1 st4)"

lemma step_relI: "(\<And>st st'. f st = Inr st' \<Longrightarrow> R st st') \<Longrightarrow> step_rel R f"
  unfolding step_rel_def by blast

lemma step_relD: "step_rel R f \<Longrightarrow> f st = Inr st' \<Longrightarrow> R st st'"
  unfolding step_rel_def by blast

lemma closed_rel_refl: "closed_rel R \<Longrightarrow> R st st"
  unfolding closed_rel_def by blast

lemma closed_rel_trans: "closed_rel R \<Longrightarrow> R a b \<Longrightarrow> R b c \<Longrightarrow> R a c"
  unfolding closed_rel_def by blast

lemma closed_rel_match: "closed_rel R \<Longrightarrow> step_rel R (match k l)"
  unfolding closed_rel_def by blast

lemma closed_rel_emit: "closed_rel R \<Longrightarrow> step_rel R (emit op args cmt)"
  unfolding closed_rel_def by blast

lemma step_rel_seq_Nil: "closed_rel R \<Longrightarrow> step_rel R (seq [])"
  by (rule step_relI) (simp add: seq_Nil_Inr closed_rel_refl)

lemma step_rel_seq_Cons:
  assumes c: "closed_rel R" and f: "step_rel R f" and fs: "step_rel R (seq fs)"
  shows "step_rel R (seq (f # fs))"
proof (rule step_relI)
  fix st st' assume "seq (f # fs) st = Inr st'"
  then obtain st1 where a: "f st = Inr st1" and b: "seq fs st1 = Inr st'"
    unfolding seq_Cons_Inr by blast
  show "R st st'"
    by (rule closed_rel_trans [OF c step_relD [OF f a] step_relD [OF fs b]])
qed

lemma step_rel_bind:
  assumes c: "closed_rel R" and f: "step_rel R f" and g: "step_rel R g"
  shows "step_rel R (\<lambda>st. case f st of Inl e \<Rightarrow> Inl e | Inr st' \<Rightarrow> g st')"
proof (rule step_relI)
  fix st st' assume "(case f st of Inl e \<Rightarrow> Inl e | Inr st' \<Rightarrow> g st') = Inr st'"
  then obtain st1 where a: "f st = Inr st1" and b: "g st1 = Inr st'"
    unfolding bind_Inr_iff by blast
  show "R st st'"
    by (rule closed_rel_trans [OF c step_relD [OF f a] step_relD [OF g b]])
qed

lemmas step_rel_intros =
  step_rel_seq_Cons step_rel_seq_Nil closed_rel_match closed_rel_emit

lemma step_rel_emit_arith:
  assumes c: "closed_rel R"
  shows "step_rel R (emit_arith op)"
proof (rule step_relI)
  fix st st' assume "emit_arith op st = Inr st'"
  then have "st' = st \<or> (\<exists>x. emit x [] None st = Inr st')"
    unfolding emit_arith_def by (simp split: if_splits) blast+
  then show "R st st'"
    using closed_rel_refl [OF c, of st] step_relD [OF closed_rel_emit [OF c], of _ "[]" None st st']
    by blast
qed

lemma step_rel_expression_operand:
  assumes c: "closed_rel R"
  shows "step_rel R expression_operand"
proof (rule step_relI)
  fix st st' assume a: "expression_operand st = Inr st'"
  then obtain t where t: "current_token st = Some t"
    by (cases "current_token st") (simp_all add: expression_operand_def)
  have sr: "step_rel R (seq [match k None, emit op args None])" for k op args
    using c by (intro step_rel_intros)
  consider (int) "token_type t = Integer"
    | (ident) "token_type t \<noteq> Integer" "token_type t = Identifier"
    | (kw) "token_type t \<noteq> Integer" "token_type t \<noteq> Identifier"
           "token_type t = Keyword \<and> lexeme t \<in> set [''true'', ''false'']"
    | (other) "token_type t \<noteq> Integer" "token_type t \<noteq> Identifier"
           "\<not> (token_type t = Keyword \<and> lexeme t \<in> set [''true'', ''false''])"
    by blast
  then show "R st st'"
  proof cases
    case int
    with a t obtain v where "seq [match Integer None, emit ''PUSHI'' [Num v] None] st = Inr st'"
      by (cases "py_int (lexeme t)") (simp_all add: expression_operand_def)
    then show ?thesis by (rule step_relD [OF sr])
  next
    case ident
    with a t have d: "is_declared st (lexeme t)"
      by (auto simp: expression_operand_def error_def split: if_splits)
    with a t ident obtain addr where
      "seq [match Identifier None, emit ''PUSHM'' [Num addr] None] st = Inr st'"
      by (cases "lookup st (lexeme t)") (auto simp: expression_operand_def)
    then show ?thesis by (rule step_relD [OF sr])
  next
    case kw
    with a t have "seq [match Keyword None,
                 emit ''PUSHI'' [Num (if lexeme t = ''true'' then 1 else 0)] None] st = Inr st'"
      by (simp add: expression_operand_def)
    then show ?thesis by (rule step_relD [OF sr])
  next
    case other
    with a t show ?thesis
      by (auto simp: expression_operand_def error_def split: if_splits)
  qed
qed

lemma step_rel_expression:
  assumes c: "closed_rel R"
  shows "step_rel R (expression n) \<and> step_rel R (binary_operators n)"
proof (induction n)
  case 0
  show ?case by (simp add: step_rel_def)
next
  case (Suc n)
  then have ihe: "step_rel R (expression n)" and ihb: "step_rel R (binary_operators n)"
    by simp_all
  have e: "step_rel R (expression (Suc n))"
  proof (rule step_relI)
    fix st st' assume "expression (Suc n) st = Inr st'"
    then obtain st1 where a: "expression_operand st = Inr st1" and b: "binary_operators n st1 = Inr st'"
      by (auto simp: bind_Inr_iff)
    show "R st st'"
      by (rule closed_rel_trans [OF c step_relD [OF step_rel_expression_operand [OF c] a]
            step_relD [OF ihb b]])
  qed
  have b: "step_rel R (binary_operators (Suc n))"
  proof (rule step_relI)
    fix st st' assume a: "binary_operators (Suc n) st = Inr st'"
    show "R st st'"
    proof (cases "at_token Operator [''+'', ''-'', ''*'', ''/''] st")
      case False
      with a show ?thesis by (simp add: closed_rel_refl [OF c])
    next
      case True
      with a obtain st1 where
        s: "seq [match Operator None, expression n,
                 emit_arith (lexeme (tokens st ! current_token_index st))] st = Inr st1"
        and r: "binary_operators n st1 = Inr st'"
        by (auto simp: bind_Inr_iff)
      have "step_rel R (seq [match Operator None, expression n,
                 emit_arith (lexeme (tokens st ! current_token_index st))])"
        by (intro step_rel_intros step_rel_emit_arith c ihe)
      from closed_rel_trans [OF c step_relD [OF this s] step_relD [OF ihb r]]
      show ?thesis .
    qed
  qed
  from e b show ?case ..
qed


lemma step_rel_condition:
  assumes c: "closed_rel R"
  shows "step_rel R (condition n)"
proof (rule step_relI)
  note ex = step_rel_expression [OF c, of n, THEN conjunct1]
  fix st st' assume "condition n st = Inr st'"
  then obtain st1 st2 x and t :: Token where a: "expression n st = Inr st1"
    and b: "seq [match Operator None, expression n] st1 = Inr st2"
    and d: "emit x [] (Some (''compare '' @ lexeme t)) st2 = Inr st'"
    unfolding condition_def bind_Inr_iff option_Inr_iff by blast
  have "step_rel R (seq [match Operator None, expression n])"
    by (intro step_rel_intros c ex)
  from closed_rel_trans [OF c step_relD [OF ex a]
      closed_rel_trans [OF c step_relD [OF this b] step_relD [OF closed_rel_emit [OF c] d]]]
  show "R st st'" .
qed

lemma step_rel_assignment:
  assumes c: "closed_rel R"
  shows "step_rel R (assignment n)"
proof (rule step_relI)
  note ex = step_rel_expression [OF c, of n, THEN conjunct1]
  fix st st' assume "assignment n st = Inr st'"
  then obtain t :: Token where "seq [match Identifier None, match Operator (Some ''=''), expression n,
               match Separator (Some '';''),
               emit ''STO'' [Name (lexeme t)] (Some (lexeme t @ '' = <expr>''))] st = Inr st'"
    unfolding assignment_def option_Inr_iff by blast
  moreover have "step_rel R (seq [match Identifier None, match Operator (Some ''=''), expression n,
               match Separator (Some '';''),
               emit ''STO'' [Name (lexeme t)] (Some (lexeme t @ '' = <expr>''))])"
    by (intro step_rel_intros c ex)
  ultimately show "R st st'"
    by (rule step_relD [rotated])
qed

lemma scan_statement_Inr:
  assumes "scan_statement st = Inr st'"
  obtains st1 st2 addr ty and t :: Token where
    "seq [match Keyword (Some ''scan''), match Separator (Some ''('')] st = Inr st1"
    and "current_token st1 = Some t"
    and "seq [match Identifier None, match Separator (Some '')''),
              match Separator (Some '';'')] st1 = Inr st2"
    and "lookup st2 (lexeme t) = Inr (addr, ty)"
    and "seq [emit ''SIN'' [] None, emit ''POPM'' [Num addr] None] st2 = Inr st'"
proof -
  from assms obtain st1 st2 v and t :: Token where
    1: "seq [match Keyword (Some ''scan''), match Separator (Some ''('')] st = Inr st1"
    and 2: "current_token st1 = Some t"
    and 3: "seq [match Identifier None, match Separator (Some '')''),
              match Separator (Some '';'')] st1 = Inr st2"
    and 4: "lookup st2 (lexeme t) = Inr v"
    and 5: "(case v of (addr, ty) \<Rightarrow>
               seq [emit ''SIN'' [] None, emit ''POPM'' [Num addr] None] st2) = Inr st'"
    unfolding scan_statement_def bind_Inr_iff option_Inr_iff by blast
  from 4 5 that [OF 1 2 3, of "fst v" "snd v"] show thesis
    by (simp add: case_prod_beta)
qed

lemma step_rel_scan_statement:
  assumes c: "closed_rel R"
  shows "step_rel R scan_statement"
proof (rule step_relI)
  fix st st' assume "scan_statement st = Inr st'"
  then obtain st1 st2 addr where
    1: "seq [match Keyword (Some ''scan''), match Separator (Some ''('')] st = Inr st1"
    and 2: "seq [match Identifier None, match Separator (Some '')''),
              match Separator (Some '';'')] st1 = Inr st2"
    and 3: "seq [emit ''SIN'' [] None, emit ''POPM'' [Num addr] None] st2 = Inr st'"
    by (rule scan_statement_Inr)
  have "step_rel R (seq [match Keyword (Some ''scan''), match Separator (Some ''('')])"
    by (intro step_rel_intros c)
  note r1 = step_relD [OF this 1]
  have "step_rel R (seq [match Identifier None, match Separator (Some '')''),
              match Separator (Some '';'')])"
    by (intro step_rel_intros c)
  note r2 = step_relD [OF this 2]
  have "step_rel R (seq [emit ''SIN'' [] None, emit ''POPM'' [Num addr] None])"
    by (intro step_rel_intros c)
  note r3 = step_relD [OF this 3]
  show "R st st'"
    by (rule closed_rel_trans [OF c r1 closed_rel_trans [OF c r2 r3]])
qed

lemma step_rel_print_statement:
  assumes c: "closed_rel R"
  shows "step_rel R (print_statement_prod n)"
  unfolding print_statement_prod_def
  by (intro step_rel_intros c step_rel_expression [OF c, of n, THEN conjunct1])

lemma step_rel_return_statement:
  assumes c: "closed_rel R"
  shows "step_rel R (return_statement n)"
proof (rule step_relI)
  note ex = step_rel_expression [OF c, of n, THEN conjunct1]
  fix st st' assume "return_statement n st = Inr st'"
  then obtain st1 where a: "match Keyword (Some ''return'') st = Inr st1"
    and b: "(case current_token st1 of
             None \<Rightarrow> match Separator (Some '';'') st1
           | Some t \<Rightarrow>
               if lexeme t \<noteq> '';''
               then seq [expression n, match Separator (Some '';'')] st1
               else match Separator (Some '';'') st1) = Inr st'"
    unfolding return_statement_def bind_Inr_iff by blast
  from b have "seq [expression n, match Separator (Some '';'')] st1 = Inr st' \<or>
         match Separator (Some '';'') st1 = Inr st'"
    by (cases "current_token st1") (simp_all split: if_splits)
  moreover have "step_rel R (seq [expression n, match Separator (Some '';'')])"
    by (intro step_rel_intros c ex)
  ultimately have "R st1 st'"
    using step_relD [OF closed_rel_match [OF c], of "Separator" "Some '';''" st1 st']
    by (auto dest: step_relD)
  with step_relD [OF closed_rel_match [OF c] a] show "R st st'"
    by (rule closed_rel_trans [OF c])
qed


lemma while_statement_Inr:
  assumes "while_statement (Suc n) st = Inr st'"
  obtains st1 st2 st3 st4 where
    "seq [match Keyword (Some ''while''), match Separator (Some ''(''), condition n,
          match Separator (Some '')'')] st = Inr st1"
    and "emit ''LABEL'' [] None st1 = Inr st2"
    and "seq [emit ''JMP0'' [Num 0] None, match Separator (Some ''{''),
              statement_list n [''}''], match Separator (Some ''}''),
              emit ''JMP'' [Num (int (instr_ptr st1))] None] st2 = Inr st3"
    and "patch (instr_ptr st2) (instr_ptr st3) st3 = Inr st4"
    and "match Keyword (Some ''endwhile'') st4 = Inr st'"
  using assms unfolding while_statement.simps bind_Inr_iff seq_Cons_Inr [of "patch _ _"] seq_Cons_Inr [of "match Keyword (Some ''endwhile'')"] seq_Nil_Inr
  by blast

lemma if_statement_Inr:
  assumes "if_statement (Suc n) st = Inr st'"
  obtains st1 where
    "seq [match Keyword (Some ''if''), match Separator (Some ''(''), condition n,
          match Separator (Some '')''), statement n] st = Inr st1"
    and "(\<exists>t. current_token st1 = Some t \<and> lexeme t = ''else'') \<and>
         seq [match Keyword (Some ''else''), statement n,
              match Keyword (Some ''endif'')] st1 = Inr st' \<or>
         match Keyword (Some ''endif'') st1 = Inr st'"
proof -
  from assms obtain st1 where
    1: "seq [match Keyword (Some ''if''), match Separator (Some ''(''), condition n,
          match Separator (Some '')''), statement n] st = Inr st1"
    and 2: "(case current_token st1 of
             None \<Rightarrow> match Keyword (Some ''endif'') st1
           | Some t \<Rightarrow>
               if lexeme t = ''else''
               then seq [match Keyword (Some ''else''), statement n,
                         match Keyword (Some ''endif'')] st1
               else match Keyword (Some ''endif'') st1) = Inr st'"
    unfolding if_statement.simps bind_Inr_iff by blast
  from 2 have "(\<exists>t. current_token st1 = Some t \<and> lexeme t = ''else'') \<and>
         seq [match Keyword (Some ''else''), statement n,
              match Keyword (Some ''endif'')] st1 = Inr st' \<or>
         match Keyword (Some ''endif'') st1 = Inr st'"
    by (cases "current_token st1") (simp_all split: if_splits)
  with 1 show thesis by (rule that)
qed

lemma step_rel_statements:
  assumes c: "closed_rel R" and p: "patch_rel R"
  shows "(\<forall>ts. step_rel R (statement_list n ts)) \<and> step_rel R (statement n) \<and>
         step_rel R (compound_statement n) \<and> step_rel R (while_statement n) \<and>
         step_rel R (if_statement n)"
proof (induction n)
  case 0
  show ?case by (simp add: step_rel_def)
next
  case (Suc n)
  then have sl: "\<And>ts. step_rel R (statement_list n ts)" and s: "step_rel R (statement n)"
    and cs: "step_rel R (compound_statement n)" and ws: "step_rel R (while_statement n)"
    and ifs: "step_rel R (if_statement n)"
    by simp_all
  note co = step_rel_condition [OF c, of n]
  have 1: "step_rel R (statement_list (Suc n) ts)" for ts
  proof (rule step_relI)
    fix st st' assume a: "statement_list (Suc n) ts st = Inr st'"
    then consider "st' = st" | st1 where "statement n st = Inr st1" "statement_list n ts st1 = Inr st'"
      by (cases "current_token st") (auto simp: bind_Inr_iff split: if_splits)
    then show "R st st'"
    proof cases
      case 1
      then show ?thesis by (simp add: closed_rel_refl [OF c])
    next
      case 2
      show ?thesis
        by (rule closed_rel_trans [OF c step_relD [OF s 2(1)] step_relD [OF sl 2(2)]])
    qed
  qed
  have 2: "step_rel R (statement (Suc n))"
  proof (rule step_relI)
    fix st st' assume a: "statement (Suc n) st = Inr st'"
    then have "compound_statement n st = Inr st' \<or> if_statement n st = Inr st' \<or>
       while_statement n st = Inr st' \<or> return_statement n st = Inr st' \<or>
       print_statement_prod n st = Inr st' \<or> scan_statement st = Inr st' \<or>
       assignment n st = Inr st'"
      by (cases "current_token st") (simp_all add: error_def split: if_splits)
    then show "R st st'"
      using step_relD [OF cs, of st st'] step_relD [OF ifs, of st st'] step_relD [OF ws, of st st']
        step_relD [OF step_rel_return_statement [OF c], of n st st']
        step_relD [OF step_rel_print_statement [OF c], of n st st']
        step_relD [OF step_rel_scan_statement [OF c], of st st']
        step_relD [OF step_rel_assignment [OF c], of n st st']
      by blast
  qed
  have 3: "step_rel R (compound_statement (Suc n))"
  proof -
    have "step_rel R (seq [match Separator (Some ''{''), statement_list n [''}''],
          match Separator (Some ''}'')])"
      by (intro step_rel_intros c sl)
    then show ?thesis
      by (simp add: step_rel_def)
  qed
  have 4: "step_rel R (while_statement (Suc n))"
  proof (rule step_relI)
    fix st st' assume a: "while_statement (Suc n) st = Inr st'"
    then obtain st1 st2 st3 st4 where
      s1: "seq [match Keyword (Some ''while''), match Separator (Some ''(''), condition n,
                match Separator (Some '')'')] st = Inr st1"
      and s2: "emit ''LABEL'' [] None st1 = Inr st2"
      and s3: "seq [emit ''JMP0'' [Num 0] None, match Separator (Some ''{''),
                          statement_list n [''}''], match Separator (Some ''}''),
                          emit ''JMP'' [Num (int (instr_ptr st1))] None] st2 = Inr st3"
      and s5: "patch (instr_ptr st2) (instr_ptr st3) st3 = Inr st4"
      and s6: "match Keyword (Some ''endwhile'') st4 = Inr st'"
      by (rule while_statement_Inr)
    have "step_rel R (seq [match Keyword (Some ''while''), match Separator (Some ''(''), condition n,
                match Separator (Some '')'')])"
      by (intro step_rel_intros c co)
    from step_relD [OF this s1] have r1: "R st st1" .
    have "step_rel R (seq [emit ''JMP0'' [Num 0] None, match Separator (Some ''{''),
                          statement_list n [''}''], match Separator (Some ''}''),
                          emit ''JMP'' [Num (int (instr_ptr st1))] None])"
      by (intro step_rel_intros c sl)
    from step_relD [OF this s3] have "R st2 st3" .
    with p s2 s5 have "R st1 st4"
      unfolding patch_rel_def by blast
    from closed_rel_trans [OF c r1 closed_rel_trans [OF c this step_relD [OF closed_rel_match [OF c] s6]]]
    show "R st st'" .
  qed
  have 5: "step_rel R (if_statement (Suc n))"
  proof (rule step_relI)
    fix st st' assume a: "if_statement (Suc n) st = Inr st'"
    then obtain st1 where
      s1: "seq [match Keyword (Some ''if''), match Separator (Some ''(''), condition n,
                match Separator (Some '')''), statement n] st = Inr st1"
      and s2: "seq [match Keyword (Some ''else''), statement n,
                         match Keyword (Some ''endif'')] st1 = Inr st' \<or>
               match Keyword (Some ''endif'') st1 = Inr st'"
      by (rule if_statement_Inr) blast
    have "step_rel R (seq [match Keyword (Some ''if''), match Separator (Some ''(''), condition n,
                match Separator (Some '')''), statement n])"
      by (intro step_rel_intros c co s)
    from step_relD [OF this s1] have r1: "R st st1" .
    have "step_rel R (seq [match Keyword (Some ''else''), statement n,
                         match Keyword (Some ''endif'')])"
      by (intro step_rel_intros c s)
    with s2 have "R st1 st'"
      using step_relD [OF closed_rel_match [OF c], of Keyword "Some ''endif''" st1 st']
      by (auto dest: step_relD)
    with r1 show "R st st'"
      by (rule closed_rel_trans [OF c])
  qed
  from 1 2 3 4 5 show ?case by blast
qed

definition decl_rel :: "(state \<Rightarrow> state \<Rightarrow> bool) \<Rightarrow> bool" where
  "decl_rel R \<longleftrightarrow> (\<forall>vt name. step_rel R (ids_action vt name))"

lemma step_rel_qualifier:
  assumes c: "closed_rel R"
  shows "step_rel R qualifier"
proof (rule step_relI)
  fix st st' assume "qualifier st = Inr st'"
  then have "match Keyword None st = Inr st'"
    by (cases "current_token st") (simp_all add: qualifier_def error_def split: if_splits)
  then show "R st st'"
    by (rule step_relD [OF closed_rel_match [OF c]])
qed

lemma ids_Inr:
  assumes "ids vt st = Inr st'"
  obtains t st1 where "current_token st = Some t" and "token_type t = Identifier"
    and "seq [ids_action vt (lexeme t), match Identifier None] st = Inr st1"
    and "\<not> at_token Separator ['',''] st1 \<and> st' = st1 \<or>
         at_token Separator ['',''] st1 \<and>
         (\<exists>st2. match Separator (Some '','') st1 = Inr st2 \<and> ids vt st2 = Inr st')"
proof -
  from assms obtain t where t: "current_token st = Some t" "token_type t = Identifier"
    by (subst (asm) ids.simps) (auto simp: error_def split: option.splits if_splits)
  with assms obtain st1 where
    s1: "seq [ids_action vt (lexeme t), match Identifier None] st = Inr st1"
    and r: "(if at_token Separator ['',''] st1
                    then (case match Separator (Some '','') st1 of
                            Inl e \<Rightarrow> Inl e
                          | Inr st'' \<Rightarrow> ids vt st'')
                    else Inr st1) = Inr st'"
    by (subst (asm) ids.simps) (auto simp: bind_Inr_iff)
  from r have "\<not> at_token Separator ['',''] st1 \<and> st' = st1 \<or>
         at_token Separator ['',''] st1 \<and>
         (\<exists>st2. match Separator (Some '','') st1 = Inr st2 \<and> ids vt st2 = Inr st')"
    by (auto simp: bind_Inr_iff split: if_splits)
  with t s1 show thesis by (rule that)
qed

lemma step_rel_ids:
  assumes c: "closed_rel R" and d: "decl_rel R"
  shows "step_rel R (ids vt)"
proof (rule step_relI)
  fix st st'
  show "ids vt st = Inr st' \<Longrightarrow> R st st'"
  proof (induction vt st arbitrary: st' rule: ids.induct)
    case (1 var_type st)
    from "1.prems" obtain t st1 where t: "current_token st = Some t" "token_type t = Identifier"
      and s1: "seq [ids_action var_type (lexeme t), match Identifier None] st = Inr st1"
      and r: "\<not> at_token Separator ['',''] st1 \<and> st' = st1 \<or>
         at_token Separator ['',''] st1 \<and>
         (\<exists>st2. match Separator (Some '','') st1 = Inr st2 \<and> ids var_type st2 = Inr st')"
      by (rule ids_Inr)
    have "step_rel R (seq [ids_action var_type (lexeme t), match Identifier None])"
      using d by (intro step_rel_intros c) (simp add: decl_rel_def)
    from step_relD [OF this s1] have r1: "R st st1" .
    from r show ?case
    proof
      assume "\<not> at_token Separator ['',''] st1 \<and> st' = st1"
      with r1 show ?thesis by simp
    next
      assume a: "at_token Separator ['',''] st1 \<and>
         (\<exists>st2. match Separator (Some '','') st1 = Inr st2 \<and> ids var_type st2 = Inr st')"
      then obtain st2 where m: "match Separator (Some '','') st1 = Inr st2"
        and i: "ids var_type st2 = Inr st'"
        by blast
      from a have at: "at_token Separator ['',''] st1" by blast
      note r2 = step_relD [OF closed_rel_match [OF c] m]
      note r3 = "1.IH" [OF t(1) t(2) s1 at m i]
      show ?thesis
        by (rule closed_rel_trans [OF c r1 closed_rel_trans [OF c r2 r3]])
    qed
  qed
qed

lemma step_rel_declaration:
  assumes c: "closed_rel R" and d: "decl_rel R"
  shows "step_rel R declaration_prod"
proof (rule step_relI)
  fix st st' assume "declaration_prod st = Inr st'"
  then obtain t :: Token where "seq [qualifier, ids (Some (lexeme t))] st = Inr st'"
    unfolding declaration_prod_def option_Inr_iff by blast
  moreover have "step_rel R (seq [qualifier, ids (Some (lexeme t))])"
    by (intro step_rel_intros c step_rel_qualifier step_rel_ids d)
  ultimately show "R st st'"
    by (rule step_relD [rotated])
qed

lemma step_rel_declaration_loop:
  assumes c: "closed_rel R" and d: "decl_rel R"
  shows "step_rel R declaration_loop"
proof (rule step_relI)
  fix st st'
  have sr: "step_rel R (seq [declaration_prod, match Separator (Some '';'')])"
    by (intro step_rel_intros c step_rel_declaration d)
  show "declaration_loop st = Inr st' \<Longrightarrow> R st st'"
  proof (induction st arbitrary: st' rule: declaration_loop.induct)
    case (1 st)
    show ?case
    proof (cases "at_token Keyword [''integer'', ''boolean'', ''real''] st")
      case False
      with "1.prems" have "st' = st"
        by (subst (asm) declaration_loop.simps) simp
      then show ?thesis by (simp add: closed_rel_refl [OF c])
    next
      case True
      with "1.prems" obtain st1 where
        s1: "seq [declaration_prod, match Separator (Some '';'')] st = Inr st1"
        and r: "declaration_loop st1 = Inr st'"
        by (subst (asm) declaration_loop.simps) (auto simp: bind_Inr_iff)
      show ?thesis
        by (rule closed_rel_trans [OF c step_relD [OF sr s1] "1.IH" [OF True s1 r]])
    qed
  qed
qed

lemma step_rel_delimiter_loop:
  assumes c: "closed_rel R"
  shows "step_rel R delimiter_loop"
proof (rule step_relI)
  fix st st'
  show "delimiter_loop st = Inr st' \<Longrightarrow> R st st'"
  proof (induction st arbitrary: st' rule: delimiter_loop.induct)
    case (1 st)
    show ?case
    proof (cases "at_token Separator [''$$''] st")
      case False
      with "1.prems" have "st' = st"
        by (subst (asm) delimiter_loop.simps) simp
      then show ?thesis by (simp add: closed_rel_refl [OF c])
    next
      case True
      with "1.prems" obtain st1 where
        s1: "match Separator (Some ''$$'') st = Inr st1"
        and r: "delimiter_loop st1 = Inr st'"
        by (subst (asm) delimiter_loop.simps) (auto simp: bind_Inr_iff)
      show ?thesis
        by (rule closed_rel_trans [OF c step_relD [OF closed_rel_match [OF c] s1]
              "1.IH" [OF True s1 r]])
    qed
  qed
qed

lemma step_rel_opt_declaration_list:
  assumes c: "closed_rel R" and d: "decl_rel R"
  shows "step_rel R opt_declaration_list"
proof (rule step_relI)
  fix st st' assume a: "opt_declaration_list st = Inr st'"
  have "step_rel R declaration_list"
    unfolding declaration_list_def
    by (intro step_rel_intros c step_rel_declaration step_rel_declaration_loop d)
  with a show "R st st'"
    by (auto simp: opt_declaration_list_def closed_rel_refl [OF c] split: if_splits
             dest: step_relD)
qed

lemma step_rel_optional_delimiter:
  assumes c: "closed_rel R"
  shows "step_rel R optional_delimiter"
proof (rule step_relI)
  fix st st' assume a: "optional_delimiter st = Inr st'"
  then have "st' = st \<or> match Separator (Some ''$$'') st = Inr st'"
    by (auto simp: optional_delimiter_def split: if_splits)
  then show "R st st'"
    using closed_rel_refl [OF c, of st]
      step_relD [OF closed_rel_match [OF c], of Separator "Some ''$$''" st st']
    by blast
qed

lemma step_rel_parse_rat25s:
  assumes c: "closed_rel R" and p: "patch_rel R" and d: "decl_rel R"
  shows "step_rel R (parse_rat25s n)"
  unfolding parse_rat25s_def
  by (intro step_rel_intros c step_rel_delimiter_loop step_rel_opt_declaration_list d
        step_rel_optional_delimiter
        step_rel_statements [OF c p, of n, THEN conjunct1, rule_format])

section \<open>What the primitive steps change\<close>

lemma py_setitem_Inr:
  "py_setitem xs (int p - 1) v = Inr ys \<Longrightarrow> 1 \<le> p \<Longrightarrow> p \<le> length xs \<and> ys = xs[p - 1 := v]"
  by (auto simp: py_setitem_def nat_diff_distrib' split: if_splits)

lemma py_setitem_length: "py_setitem xs i v = Inr ys \<Longrightarrow> length ys = length xs"
  by (auto simp: py_setitem_def split: if_splits)

lemma emit_Inr:
  assumes "emit op args cmt st = Inr st'"
  shows "tokens st' = tokens st" and "current_token_index st' = current_token_index st"
    and "symbol_table st' = symbol_table st" and "Memory_Address st' = Memory_Address st"
    and "instr_ptr st' = instr_ptr st + 1"
    and "length (instructions st') = length (instructions st)"
  using assms by (auto simp: emit_def bind_Inr_iff dest: py_setitem_length)

lemma emit_Inr_slot:
  assumes "emit op args cmt st = Inr st'" and "1 \<le> instr_ptr st"
  shows "instr_ptr st \<le> length (instructions st)"
    and "instructions st' = (instructions st)
           [instr_ptr st - 1 := Some \<lparr>pos = instr_ptr st, opcode = op, operands = args, comment = cmt\<rparr>]"
  using assms by (auto simp: emit_def bind_Inr_iff dest: py_setitem_Inr)

lemma patch_Inr:
  assumes "patch p e st = Inr st'"
  shows "tokens st' = tokens st" and "current_token_index st' = current_token_index st"
    and "symbol_table st' = symbol_table st" and "Memory_Address st' = Memory_Address st"
    and "instr_ptr st' = instr_ptr st"
    and "length (instructions st') = length (instructions st)"
  using assms by (auto simp: patch_def bind_Inr_iff dest: py_setitem_length)

lemma patch_Inr_slot:
  assumes "patch p e st = Inr st'" and "1 \<le> p"
  shows "p \<le> length (instructions st)"
    and "instructions st' = (instructions st)
           [p - 1 := Some \<lparr>pos = p, opcode = ''JMP0'', operands = [Num (int e)], comment = None\<rparr>]"
  using assms by (auto simp: patch_def bind_Inr_iff dest: py_setitem_Inr)

lemma match_Inr_fields:
  assumes "match k l st = Inr st'"
  shows "tokens st' = tokens st" and "current_token_index st' = current_token_index st + 1"
    and "symbol_table st' = symbol_table st" and "Memory_Address st' = Memory_Address st"
    and "instr_ptr st' = instr_ptr st" and "instructions st' = instructions st"
    and "current_token_index st < length (tokens st)"
    and "token_type (tokens st ! current_token_index st) = k"
    and "l = None \<or> l = Some (lexeme (tokens st ! current_token_index st))"
  using assms
  by (auto simp: match_def error_def current_token_def advance_def split: if_splits)

section \<open>Tokens, symbols and instruction slots across a parse\<close>

definition advances :: "state \<Rightarrow> state \<Rightarrow> bool" where
  "advances st st' \<longleftrightarrow>
     tokens st' = tokens st \<and> current_token_index st \<le> current_token_index st' \<and>
     (current_token_index st \<le> length (tokens st) \<longrightarrow>
      current_token_index st' \<le> length (tokens st))"

definition same_symbols :: "state \<Rightarrow> state \<Rightarrow> bool" where
  "same_symbols st st' \<longleftrightarrow>
     symbol_table st' = symbol_table st \<and> Memory_Address st' = Memory_Address st"

text \<open>
  \<open>keeps st st'\<close>: from \<open>st\<close> to \<open>st'\<close> the instruction pointer does not go back, the
  capacity is the same, and every slot below the pointer of \<open>st\<close> is untouched.
\<close>

definition keeps :: "state \<Rightarrow> state \<Rightarrow> bool" where
  "keeps st st' \<longleftrightarrow>
     (1 \<le> instr_ptr st \<longrightarrow>
        length (instructions st') = length (instructions st) \<and>
        instr_ptr st \<le> instr_ptr st' \<and>
        (\<forall>i. i + 1 < instr_ptr st \<longrightarrow> instructions st' ! i = instructions st ! i))"

lemma closed_relI:
  assumes "\<And>st. R st st" and "\<And>a b c. R a b \<Longrightarrow> R b c \<Longrightarrow> R a c"
    and "\<And>k l st st'. match k l st = Inr st' \<Longrightarrow> R st st'"
    and "\<And>op args cmt st st'. emit op args cmt st = Inr st' \<Longrightarrow> R st st'"
  shows "closed_rel R"
  unfolding closed_rel_def step_rel_def using assms by blast

lemma patch_relI:
  assumes "\<And>st1 st2 st3 st4. emit ''LABEL'' [] None st1 = Inr st2 \<Longrightarrow> R st2 st3 \<Longrightarrow>
        patch (instr_ptr st2) (instr_ptr st3) st3 = Inr st4 \<Longrightarrow> R st1 st4"
  shows "patch_rel R"
  unfolding patch_rel_def using assms by blast

lemma decl_relI:
  assumes "\<And>vt name st st'. ids_action vt name st = Inr st' \<Longrightarrow> R st st'"
  shows "decl_rel R"
  unfolding decl_rel_def step_rel_def using assms by blast

lemma closed_rel_advances: "closed_rel advances"
proof (rule closed_relI)
  show "advances st st" for st
    by (simp add: advances_def)
  show "advances a b \<Longrightarrow> advances b c \<Longrightarrow> advances a c" for a b c
    by (simp add: advances_def)
  show "advances st st'" if "match k l st = Inr st'" for k l st st'
    using match_Inr_fields(1,2,7) [OF that] by (simp add: advances_def)
  show "advances st st'" if "emit op args cmt st = Inr st'" for op args cmt st st'
    using emit_Inr(1,2) [OF that] by (simp add: advances_def)
qed

lemma patch_rel_advances: "patch_rel advances"
proof (rule patch_relI)
  fix st1 st2 st3 st4
  assume e: "emit ''LABEL'' [] None st1 = Inr st2" and k: "advances st2 st3"
    and p: "patch (instr_ptr st2) (instr_ptr st3) st3 = Inr st4"
  from k emit_Inr(1,2) [OF e] patch_Inr(1,2) [OF p] show "advances st1 st4"
    by (simp add: advances_def)
qed

lemma decl_rel_advances: "decl_rel advances"
proof (rule decl_relI)
  show "advances st st'" if "ids_action vt name st = Inr st'" for vt name st st'
    using ids_action_Inr [OF that] by (simp add: advances_def)
qed

lemma closed_rel_same_symbols: "closed_rel same_symbols"
proof (rule closed_relI)
  show "same_symbols st st" for st
    by (simp add: same_symbols_def)
  show "same_symbols a b \<Longrightarrow> same_symbols b c \<Longrightarrow> same_symbols a c" for a b c
    by (simp add: same_symbols_def)
  show "same_symbols st st'" if "match k l st = Inr st'" for k l st st'
    using match_Inr_fields(3,4) [OF that] by (simp add: same_symbols_def)
  show "same_symbols st st'" if "emit op args cmt st = Inr st'" for op args cmt st st'
    using emit_Inr(3,4) [OF that] by (simp add: same_symbols_def)
qed

lemma patch_rel_same_symbols: "patch_rel same_symbols"
proof (rule patch_relI)
  fix st1 st2 st3 st4
  assume e: "emit ''LABEL'' [] None st1 = Inr st2" and k: "same_symbols st2 st3"
    and p: "patch (instr_ptr st2) (instr_ptr st3) st3 = Inr st4"
  from k emit_Inr(3,4) [OF e] patch_Inr(3,4) [OF p] show "same_symbols st1 st4"
    by (simp add: same_symbols_def)
qed

lemma keeps_trans:
  assumes "keeps a b" and "keeps b c"
  shows "keeps a c"
  unfolding keeps_def
proof (intro impI)
  assume 1: "1 \<le> instr_ptr a"
  with assms(1) have ab: "length (instructions b) = length (instructions a)"
    "instr_ptr a \<le> instr_ptr b"
    "\<And>i. i + 1 < instr_ptr a \<Longrightarrow> instructions b ! i = instructions a ! i"
    unfolding keeps_def by simp_all
  from 1 ab(2) have "1 \<le> instr_ptr b" by simp
  with assms(2) have bc: "length (instructions c) = length (instructions b)"
    "instr_ptr b \<le> instr_ptr c"
    "\<And>i. i + 1 < instr_ptr b \<Longrightarrow> instructions c ! i = instructions b ! i"
    unfolding keeps_def by simp_all
  have "instructions c ! i = instructions a ! i" if "i + 1 < instr_ptr a" for i
  proof -
    from that ab(2) have "i + 1 < instr_ptr b" by simp
    from bc(3) [OF this] ab(3) [OF that] show ?thesis by simp
  qed
  with ab(1,2) bc(1,2)
  show "length (instructions c) = length (instructions a) \<and>
        instr_ptr a \<le> instr_ptr c \<and>
        (\<forall>i. i + 1 < instr_ptr a \<longrightarrow> instructions c ! i = instructions a ! i)"
    by simp
qed

lemma keeps_emit:
  assumes a: "emit op args cmt st = Inr st'"
  shows "keeps st st'"
  unfolding keeps_def
proof (intro impI)
  assume 1: "1 \<le> instr_ptr st"
  have "instructions st' ! i = instructions st ! i" if "i + 1 < instr_ptr st" for i
    using that emit_Inr_slot(2) [OF a 1] by simp
  with emit_Inr(5,6) [OF a]
  show "length (instructions st') = length (instructions st) \<and>
        instr_ptr st \<le> instr_ptr st' \<and>
        (\<forall>i. i + 1 < instr_ptr st \<longrightarrow> instructions st' ! i = instructions st ! i)"
    by simp
qed

lemma closed_rel_keeps: "closed_rel keeps"
proof (rule closed_relI)
  show "keeps st st" for st
    by (simp add: keeps_def)
  show "keeps a b \<Longrightarrow> keeps b c \<Longrightarrow> keeps a c" for a b c
    by (rule keeps_trans)
  show "keeps st st'" if "match k l st = Inr st'" for k l st st'
    using match_Inr_fields(5,6) [OF that] by (simp add: keeps_def)
  show "keeps st st'" if "emit op args cmt st = Inr st'" for op args cmt st st'
    using that by (rule keeps_emit)
qed

lemma patch_rel_keeps: "patch_rel keeps"
proof (rule patch_relI)
  fix st1 st2 st3 st4
  assume e: "emit ''LABEL'' [] None st1 = Inr st2" and k: "keeps st2 st3"
    and p: "patch (instr_ptr st2) (instr_ptr st3) st3 = Inr st4"
  show "keeps st1 st4"
    unfolding keeps_def
  proof (intro impI)
    assume 1: "1 \<le> instr_ptr st1"
    with emit_Inr(5) [OF e] have 2: "1 \<le> instr_ptr st2" by simp
    from k 2 have k': "length (instructions st3) = length (instructions st2)"
      "instr_ptr st2 \<le> instr_ptr st3"
      "\<And>i. i + 1 < instr_ptr st2 \<Longrightarrow> instructions st3 ! i = instructions st2 ! i"
      unfolding keeps_def by simp_all
    have "instructions st4 ! i = instructions st1 ! i" if "i + 1 < instr_ptr st1" for i
    proof -
      from that emit_Inr(5) [OF e] have "i + 1 < instr_ptr st2" by simp
      from k'(3) [OF this] have "instructions st3 ! i = instructions st2 ! i" .
      moreover from that have "instructions st2 ! i = instructions st1 ! i"
        using emit_Inr_slot(2) [OF e 1] by simp
      moreover from that emit_Inr(5) [OF e] have "instructions st4 ! i = instructions st3 ! i"
        using patch_Inr_slot(2) [OF p 2] by simp
      ultimately show ?thesis by simp
    qed
    with emit_Inr(5,6) [OF e] patch_Inr(5,6) [OF p] k'(1,2)
    show "length (instructions st4) = length (instructions st1) \<and>
        instr_ptr st1 \<le> instr_ptr st4 \<and>
        (\<forall>i. i + 1 < instr_ptr st1 \<longrightarrow> instructions st4 ! i = instructions st1 ! i)"
      by simp
  qed
qed

section \<open>The scan statement\<close>

definition next_tokens :: "state \<Rightarrow> nat \<Rightarrow> Token list" where
  "next_tokens st n = take n (drop (current_token_index st) (tokens st))"

lemma next_tokens_Cons:
  assumes "next_tokens st (Suc n) = t # ts"
  shows "current_token st = Some t" and "next_tokens (advance st) n = ts"
proof -
  from assms have ne: "drop (current_token_index st) (tokens st) \<noteq> []"
    by (auto simp: next_tokens_def)
  then have lt: "current_token_index st < length (tokens st)"
    by simp
  then have d: "drop (current_token_index st) (tokens st) =
      tokens st ! current_token_index st # drop (Suc (current_token_index st)) (tokens st)"
    by (simp add: Cons_nth_drop_Suc)
  with assms have "tokens st ! current_token_index st = t"
    and "take n (drop (Suc (current_token_index st)) (tokens st)) = ts"
    by (simp_all add: next_tokens_def)
  with lt show "current_token st = Some t" and "next_tokens (advance st) n = ts"
    by (simp_all add: current_token_def next_tokens_def advance_def)
qed

lemma next_tokens_ConsI:
  assumes "current_token st = Some t" and "next_tokens (advance st) n = ts"
  shows "next_tokens st (Suc n) = t # ts"
proof -
  from assms(1) have lt: "current_token_index st < length (tokens st)"
    and t: "tokens st ! current_token_index st = t"
    by (auto simp: current_token_def split: if_splits)
  then have d: "drop (current_token_index st) (tokens st) =
      t # drop (Suc (current_token_index st)) (tokens st)"
    by (metis Cons_nth_drop_Suc)
  with assms(2) show ?thesis
    by (simp add: next_tokens_def advance_def)
qed

lemma match_current:
  "current_token st = Some \<lparr>token_type = k, lexeme = x\<rparr> \<Longrightarrow> match k None st = Inr (advance st)"
  "current_token st = Some \<lparr>token_type = k, lexeme = x\<rparr> \<Longrightarrow> match k (Some x) st = Inr (advance st)"
  by (simp_all add: match_def)

lemma match_Inr_current:
  assumes "match k l st = Inr st'"
  shows "st' = advance st"
    and "\<exists>x. current_token st = Some \<lparr>token_type = k, lexeme = x\<rparr> \<and> (l = None \<or> l = Some x)"
proof -
  from assms show "st' = advance st" by (simp add: match_Inr)
  from assms obtain t where t: "current_token st = Some t" "token_type t = k"
    "l = None \<or> l = Some (lexeme t)"
    by (cases "current_token st") (auto simp: match_def error_def split: if_splits)
  then have "t = \<lparr>token_type = k, lexeme = lexeme t\<rparr>" by simp
  with t show "\<exists>x. current_token st = Some \<lparr>token_type = k, lexeme = x\<rparr> \<and> (l = None \<or> l = Some x)"
    by metis
qed

lemma lookup_undeclared:
  assumes "\<not> is_declared st x"
  shows "lookup st x = Inl (KeyError x)"
proof -
  from assms have "map_of (symbol_table st) x = None"
    by (simp add: map_of_eq_None_iff is_declared_def)
  then show ?thesis
    by (simp add: lookup_def)
qed

lemma lookup_Inl: "lookup st x = Inl e \<Longrightarrow> e = KeyError x \<and> \<not> is_declared st x"
  by (auto simp: lookup_def is_declared_def map_of_eq_None_iff split: option.splits)

lemma lookup_Some: "map_of (symbol_table st) x = Some v \<Longrightarrow> lookup st x = Inr v"
  by (simp add: lookup_def)

lemma emit_ok:
  assumes "1 \<le> instr_ptr st" and "instr_ptr st \<le> length (instructions st)"
  shows "emit op args cmt st =
     Inr (st\<lparr>instructions := (instructions st)
             [instr_ptr st - 1 := Some \<lparr>pos = instr_ptr st, opcode = op, operands = args, comment = cmt\<rparr>],
            instr_ptr := instr_ptr st + 1\<rparr>)"
  using assms by (simp add: emit_def py_setitem_def nat_diff_distrib')

lemma emit_Inl: "emit op args cmt st = Inl e \<Longrightarrow> e = IndexError"
  by (auto simp: emit_def py_setitem_def split: if_splits)

lemma match_Inl: "match k l st = Inl e \<Longrightarrow> \<exists>m i t. e = SyntaxError m i t"
  by (auto simp: match_def error_def split: option.splits if_splits)

definition scan_tokens :: "string \<Rightarrow> Token list" where
  "scan_tokens x =
     [\<lparr>token_type = Keyword, lexeme = ''scan''\<rparr>, \<lparr>token_type = Separator, lexeme = ''(''\<rparr>,
      \<lparr>token_type = Identifier, lexeme = x\<rparr>, \<lparr>token_type = Separator, lexeme = '')''\<rparr>,
      \<lparr>token_type = Separator, lexeme = '';''\<rparr>]"

lemma scan_statement_shape:
  assumes "next_tokens st 5 = scan_tokens x"
  shows "scan_statement st =
     (case lookup st x of
        Inl e \<Rightarrow> Inl e
      | Inr (addr, ty) \<Rightarrow>
          seq [emit ''SIN'' [] None, emit ''POPM'' [Num addr] None]
            (st\<lparr>current_token_index := current_token_index st + 5\<rparr>))"
proof -
  let ?a = "advance st" and ?b = "advance (advance st)"
  let ?c = "advance (advance (advance st))"
  let ?d = "advance (advance (advance (advance st)))"
  let ?e = "advance (advance (advance (advance (advance st))))"
  from assms have s: "next_tokens st (Suc (Suc (Suc (Suc (Suc 0))))) = scan_tokens x"
    by (simp add: eval_nat_numeral)
  note 1 = next_tokens_Cons [OF s [unfolded scan_tokens_def]]
  note 2 = next_tokens_Cons [OF 1(2)]
  note 3 = next_tokens_Cons [OF 2(2)]
  note 4 = next_tokens_Cons [OF 3(2)]
  note 5 = next_tokens_Cons [OF 4(2)]
  have e: "?e = st\<lparr>current_token_index := current_token_index st + 5\<rparr>"
    by (simp add: advance_def)
  have l: "lookup (st\<lparr>current_token_index := n\<rparr>) = lookup st" for n
    by (simp add: lookup_def fun_eq_iff)
  have "seq [match Keyword (Some ''scan''), match Separator (Some ''('')] st = Inr ?b"
    by (simp add: seq.simps match_current [OF 1(1)] match_current [OF 2(1)])
  moreover have "seq [match Identifier None, match Separator (Some '')''),
                          match Separator (Some '';'')] ?b = Inr ?e"
    by (simp add: seq.simps match_current [OF 3(1)] match_current [OF 4(1)] match_current [OF 5(1)])
  ultimately show ?thesis
    using 3(1) by (simp add: scan_statement_def l e)
qed

lemma scan_statement_KeyError:
  assumes "scan_statement st = Inl (KeyError y)"
  shows "next_tokens st 5 = scan_tokens y \<and> \<not> is_declared st y"
proof -
  have noK: "seq fs s = Inl (KeyError y) \<Longrightarrow>
      (\<forall>f\<in>set fs. \<forall>s e. f s = Inl e \<longrightarrow> e \<noteq> KeyError y) \<Longrightarrow> False" for fs s
    by (induction fs arbitrary: s) (auto simp: seq.simps split: sum.splits)
  have m: "match k l s = Inl e \<Longrightarrow> e \<noteq> KeyError y" for k l s e
    by (auto dest: match_Inl)
  have em: "emit op args cmt s = Inl e \<Longrightarrow> e \<noteq> KeyError y" for op args cmt s e
    by (auto dest: emit_Inl)
  from assms obtain st1 where
    1: "seq [match Keyword (Some ''scan''), match Separator (Some ''('')] st = Inr st1"
    by (cases "seq [match Keyword (Some ''scan''), match Separator (Some ''('')] st")
       (auto simp: scan_statement_def dest!: noK dest: m)
  with assms obtain t :: Token where 2: "current_token st1 = Some t"
    by (cases "current_token st1") (auto simp: scan_statement_def)
  from assms 1 2 obtain st2 where
    3: "seq [match Identifier None, match Separator (Some '')''),
             match Separator (Some '';'')] st1 = Inr st2"
    by (cases "seq [match Identifier None, match Separator (Some '')''),
             match Separator (Some '';'')] st1")
       (auto simp: scan_statement_def dest!: noK dest: m)
  from assms 1 2 3 have 4: "lookup st2 (lexeme t) = Inl (KeyError y)"
    by (cases "lookup st2 (lexeme t)")
       (auto simp: scan_statement_def split: prod.splits dest!: noK dest: em)
  from lookup_Inl [OF 4] have y: "y = lexeme t" and nd: "\<not> is_declared st2 y"
    by simp_all
  from 1 obtain sa where a: "match Keyword (Some ''scan'') st = Inr sa"
    and b: "match Separator (Some ''('') sa = Inr st1"
    by (auto simp: seq_Cons_Inr seq_Nil_Inr)
  from 3 obtain sc sd where c: "match Identifier None st1 = Inr sc"
    and d: "match Separator (Some '')'') sc = Inr sd"
    and e: "match Separator (Some '';'') sd = Inr st2"
    by (auto simp: seq_Cons_Inr seq_Nil_Inr)
  note A = match_Inr_current [OF a] and B = match_Inr_current [OF b]
    and C = match_Inr_current [OF c] and D = match_Inr_current [OF d]
    and E = match_Inr_current [OF e]
  from C(2) 2 y have c3: "current_token st1 = Some \<lparr>token_type = Identifier, lexeme = y\<rparr>"
    by auto
  have "next_tokens st2 0 = []"
    by (simp add: next_tokens_def)
  with E have "next_tokens sd (Suc 0) = [\<lparr>token_type = Separator, lexeme = '';''\<rparr>]"
    by (auto intro!: next_tokens_ConsI)
  with D have "next_tokens sc (Suc (Suc 0)) = [\<lparr>token_type = Separator, lexeme = '')''\<rparr>,
      \<lparr>token_type = Separator, lexeme = '';''\<rparr>]"
    by (auto intro!: next_tokens_ConsI)
  with C(1) c3 have "next_tokens st1 (Suc (Suc (Suc 0))) =
      [\<lparr>token_type = Identifier, lexeme = y\<rparr>, \<lparr>token_type = Separator, lexeme = '')''\<rparr>,
      \<lparr>token_type = Separator, lexeme = '';''\<rparr>]"
    by (auto intro!: next_tokens_ConsI)
  with B have "next_tokens sa (Suc (Suc (Suc (Suc 0)))) =
      [\<lparr>token_type = Separator, lexeme = ''(''\<rparr>,
       \<lparr>token_type = Identifier, lexeme = y\<rparr>, \<lparr>token_type = Separator, lexeme = '')''\<rparr>,
      \<lparr>token_type = Separator, lexeme = '';''\<rparr>]"
    by (auto intro!: next_tokens_ConsI)
  with A have "next_tokens st (Suc (Suc (Suc (Suc (Suc 0))))) = scan_tokens y"
    unfolding scan_tokens_def by (auto intro!: next_tokens_ConsI)
  moreover from A(1) B(1) C(1) D(1) E(1) nd have "\<not> is_declared st y"
    by (simp add: is_declared_def advance_def)
  ultimately show ?thesis
    by (simp add: eval_nat_numeral)
qed

text \<open>
  Claim C10.  Let the next five tokens be \<^verbatim>\<open>scan ( x ) ;\<close>.  If \<^verbatim>\<open>x\<close> is not declared,
  \<^verbatim>\<open>scan_statement\<close> ends with the \<^verbatim>\<open>KeyError\<close> of the dictionary lookup, whatever the
  state of the instruction stream (so before SIN or POPM is written); and a \<^verbatim>\<open>KeyError\<close>
  is raised only then, that is only after the five tokens have been matched, and never as
  the syntax error that reports a use without declaration.  If \<^verbatim>\<open>x\<close> is declared at
  address \<open>addr\<close> and two slots are free, the five tokens are consumed and exactly SIN
  and POPM \<open>addr\<close> are written at the instruction pointer, in this order.
\<close>

theorem scan_statement_lookup:
  "(next_tokens st 5 = scan_tokens x \<and> \<not> is_declared st x \<longrightarrow>
      scan_statement st = Inl (KeyError x)) \<and>
   (scan_statement st = Inl (KeyError x) \<longrightarrow>
      next_tokens st 5 = scan_tokens x \<and> \<not> is_declared st x) \<and>
   (next_tokens st 5 = scan_tokens x \<and> map_of (symbol_table st) x = Some (addr, ty) \<and>
    1 \<le> instr_ptr st \<and> instr_ptr st < length (instructions st) \<longrightarrow>
      scan_statement st =
        Inr (st\<lparr>current_token_index := current_token_index st + 5,
                instructions := (instructions st)
                  [instr_ptr st - 1 :=
                     Some \<lparr>pos = instr_ptr st, opcode = ''SIN'', operands = [], comment = None\<rparr>,
                   instr_ptr st :=
                     Some \<lparr>pos = instr_ptr st + 1, opcode = ''POPM'', operands = [Num addr],
                           comment = None\<rparr>],
                instr_ptr := instr_ptr st + 2\<rparr>))"
proof (intro conjI impI)
  assume "next_tokens st 5 = scan_tokens x \<and> \<not> is_declared st x"
  then show "scan_statement st = Inl (KeyError x)"
    by (simp add: scan_statement_shape lookup_undeclared)
next
  assume "scan_statement st = Inl (KeyError x)"
  then show "next_tokens st 5 = scan_tokens x" and "\<not> is_declared st x"
    by (simp_all add: scan_statement_KeyError)
next
  assume a: "next_tokens st 5 = scan_tokens x \<and> map_of (symbol_table st) x = Some (addr, ty) \<and>
    1 \<le> instr_ptr st \<and> instr_ptr st < length (instructions st)"
  then have "lookup st x = Inr (addr, ty)"
    by (simp add: lookup_Some)
  with a show "scan_statement st =
        Inr (st\<lparr>current_token_index := current_token_index st + 5,
                instructions := (instructions st)
                  [instr_ptr st - 1 :=
                     Some \<lparr>pos = instr_ptr st, opcode = ''SIN'', operands = [], comment = None\<rparr>,
                   instr_ptr st :=
                     Some \<lparr>pos = instr_ptr st + 1, opcode = ''POPM'', operands = [Num addr],
                           comment = None\<rparr>],
                instr_ptr := instr_ptr st + 2\<rparr>)"
    by (simp add: scan_statement_shape seq.simps emit_ok)
qed

theorem scan_statement_lookup_witness:
  "scan_statement (reset (scan_tokens ''d'')) = Inl (KeyError ''d'') \<and>
   scan_statement ((reset (scan_tokens ''d''))\<lparr>symbol_table := [(''d'', 10000, ''integer'')]\<rparr>) =
     Inr ((reset (scan_tokens ''d''))
           \<lparr>symbol_table := [(''d'', 10000, ''integer'')],
            current_token_index := 5,
            instructions := (replicate MAX_INSTR None)
              [0 := Some \<lparr>pos = 1, opcode = ''SIN'', operands = [], comment = None\<rparr>,
               1 := Some \<lparr>pos = 2, opcode = ''POPM'', operands = [Num 10000], comment = None\<rparr>],
            instr_ptr := 3\<rparr>)"
  using scan_statement_lookup [of "reset (scan_tokens ''d'')" "''d''" 0 "''''"]
    scan_statement_lookup [of "(reset (scan_tokens ''d''))\<lparr>symbol_table := [(''d'', 10000, ''integer'')]\<rparr>"
       "''d''" 10000 "''integer''"]
  by (simp add: reset_def next_tokens_def scan_tokens_def is_declared_def MAX_INSTR_def
        numeral_2_eq_2 numeral_3_eq_3)

section \<open>Symbol addresses\<close>

definition symtab_inv :: "state \<Rightarrow> bool" where
  "symtab_inv st \<longleftrightarrow>
     map (fst \<circ> snd) (symbol_table st) =
       map int [10000 ..< 10000 + length (symbol_table st)] \<and>
     distinct (map fst (symbol_table st)) \<and>
     Memory_Address st = 10000 + int (length (symbol_table st))"

definition inv_rel :: "state \<Rightarrow> state \<Rightarrow> bool" where
  "inv_rel st st' \<longleftrightarrow> (symtab_inv st \<longrightarrow> symtab_inv st')"

lemma symtab_inv_cong:
  "symbol_table st' = symbol_table st \<Longrightarrow> Memory_Address st' = Memory_Address st \<Longrightarrow>
     symtab_inv st \<Longrightarrow> symtab_inv st'"
  by (simp add: symtab_inv_def)

lemma insert_identifier_Inr:
  assumes "insert_identifier x ty st = Inr st'"
  shows "symbol_table st' = symbol_table st @ [(x, Memory_Address st, ty)]"
    and "Memory_Address st' = Memory_Address st + 1"
    and "x \<notin> set (map fst (symbol_table st))"
  using assms by (auto simp: insert_identifier_def is_declared_def split: if_splits)

lemma symtab_inv_insert:
  assumes a: "insert_identifier x ty st = Inr st'" and i: "symtab_inv st"
  shows "symtab_inv st'"
proof -
  note f = insert_identifier_Inr [OF a]
  from i have m: "map (fst \<circ> snd) (symbol_table st) =
       map int [10000 ..< 10000 + length (symbol_table st)]"
    and d: "distinct (map fst (symbol_table st))"
    and ma: "Memory_Address st = 10000 + int (length (symbol_table st))"
    by (simp_all add: symtab_inv_def)
  let ?k = "length (symbol_table st)"
  have u: "[10000 ..< Suc (10000 + ?k)] = [10000 ..< 10000 + ?k] @ [10000 + ?k]"
    by (rule upt_Suc_append) simp
  have l: "10000 + length (symbol_table st') = Suc (10000 + ?k)"
    using f(1) by simp
  have "map (fst \<circ> snd) (symbol_table st') =
      map (fst \<circ> snd) (symbol_table st) @ [Memory_Address st]"
    using f(1) by simp
  also have "\<dots> = map int ([10000 ..< 10000 + ?k] @ [10000 + ?k])"
    using m ma by simp
  also have "\<dots> = map int [10000 ..< 10000 + length (symbol_table st')]"
    unfolding l u ..
  finally have "map (fst \<circ> snd) (symbol_table st') =
       map int [10000 ..< 10000 + length (symbol_table st')]" .
  moreover have "distinct (map fst (symbol_table st'))"
    using f(1,3) d by simp
  moreover have "Memory_Address st' = 10000 + int (length (symbol_table st'))"
    using f(1,2) ma by simp
  ultimately show ?thesis
    by (simp add: symtab_inv_def)
qed

lemma closed_rel_inv: "closed_rel inv_rel"
proof (rule closed_relI)
  show "inv_rel st st" for st
    by (simp add: inv_rel_def)
  show "inv_rel a b \<Longrightarrow> inv_rel b c \<Longrightarrow> inv_rel a c" for a b c
    by (simp add: inv_rel_def)
  show "inv_rel st st'" if "match k l st = Inr st'" for k l st st'
    using match_Inr_fields(3,4) [OF that] by (auto simp: inv_rel_def intro: symtab_inv_cong)
  show "inv_rel st st'" if "emit op args cmt st = Inr st'" for op args cmt st st'
    using emit_Inr(3,4) [OF that] by (auto simp: inv_rel_def intro: symtab_inv_cong)
qed

lemma patch_rel_inv: "patch_rel inv_rel"
proof (rule patch_relI)
  fix st1 st2 st3 st4
  assume e: "emit ''LABEL'' [] None st1 = Inr st2" and k: "inv_rel st2 st3"
    and p: "patch (instr_ptr st2) (instr_ptr st3) st3 = Inr st4"
  show "inv_rel st1 st4"
    unfolding inv_rel_def
  proof
    assume "symtab_inv st1"
    with emit_Inr(3,4) [OF e] have "symtab_inv st2" by (rule symtab_inv_cong)
    with k have "symtab_inv st3" by (simp add: inv_rel_def)
    with patch_Inr(3,4) [OF p] show "symtab_inv st4" by (rule symtab_inv_cong)
  qed
qed

lemma decl_rel_inv: "decl_rel inv_rel"
proof (rule decl_relI)
  fix vt name st st' assume a: "ids_action vt name st = Inr st'"
  then have "st' = st \<or> (\<exists>ty. insert_identifier name ty st = Inr st')"
    by (auto simp: ids_action_def error_def split: option.splits if_splits)
  then show "inv_rel st st'"
    unfolding inv_rel_def by (auto intro: symtab_inv_insert)
qed

lemma symtab_inv_reset: "symtab_inv (reset toks)"
  by (simp add: symtab_inv_def reset_def)

text \<open>
  Claim C7.  After a run from the reset state, the addresses of the symbol table, read in
  declaration order, are 10000, 10001, ... without gap: they start at 10000, increase
  strictly and are unique; no name occurs twice; the counter is 10000 plus the number of
  entries.  Each successful declaration appends one entry at the counter's value and
  adds one to the counter.
\<close>

theorem symbol_addresses:
  "(parse_rat25s n (reset toks) = Inr st \<longrightarrow>
      map (fst \<circ> snd) (symbol_table st) =
        map int [10000 ..< 10000 + length (symbol_table st)] \<and>
      sorted_wrt (<) (map (fst \<circ> snd) (symbol_table st)) \<and>
      distinct (map (fst \<circ> snd) (symbol_table st)) \<and>
      distinct (map fst (symbol_table st)) \<and>
      Memory_Address st = 10000 + int (length (symbol_table st))) \<and>
   (insert_identifier x ty s = Inr s' \<longrightarrow>
      symbol_table s' = symbol_table s @ [(x, Memory_Address s, ty)] \<and>
      Memory_Address s' = Memory_Address s + 1)"
proof (intro conjI impI)
  assume a: "parse_rat25s n (reset toks) = Inr st"
  have "step_rel inv_rel (parse_rat25s n)"
    by (rule step_rel_parse_rat25s [OF closed_rel_inv patch_rel_inv decl_rel_inv])
  from step_relD [OF this a] symtab_inv_reset have i: "symtab_inv st"
    by (simp add: inv_rel_def)
  then show m: "map (fst \<circ> snd) (symbol_table st) =
        map int [10000 ..< 10000 + length (symbol_table st)]"
    and "distinct (map fst (symbol_table st))"
    and "Memory_Address st = 10000 + int (length (symbol_table st))"
    by (simp_all add: symtab_inv_def)
  have "sorted_wrt (<) (map int [10000 ..< 10000 + length (symbol_table st)])"
    by (simp add: sorted_wrt_map)
  with m show "sorted_wrt (<) (map (fst \<circ> snd) (symbol_table st))"
    by simp
  have "distinct (map int [10000 ..< 10000 + length (symbol_table st)])"
    by (simp add: distinct_map)
  with m show "distinct (map (fst \<circ> snd) (symbol_table st))"
    by simp
next
  assume "insert_identifier x ty s = Inr s'"
  from insert_identifier_Inr(1,2) [OF this]
  show "symbol_table s' = symbol_table s @ [(x, Memory_Address s, ty)]"
    and "Memory_Address s' = Memory_Address s + 1"
    by simp_all
qed

theorem symbol_addresses_witness:
  "(case compile ''$$ integer a, b; boolean c; $$ a = 1; $$'' of
      Inl e \<Rightarrow> False
    | Inr st \<Rightarrow>
        symbol_table st =
          [(''a'', 10000, ''integer''), (''b'', 10001, ''integer''), (''c'', 10002, ''boolean'')] \<and>
        map (fst \<circ> snd) (symbol_table st) = map int [10000 ..< 10000 + length (symbol_table st)] \<and>
        Memory_Address st = 10003) \<and>
   (case insert_identifier ''a'' ''integer'' (reset []) of
      Inl e \<Rightarrow> False
    | Inr s' \<Rightarrow> symbol_table s' = [(''a'', 10000, ''integer'')] \<and> Memory_Address s' = 10001)"
proof -
  have "case compile ''$$ integer a, b; boolean c; $$ a = 1; $$'' of
      Inl e \<Rightarrow> False
    | Inr st \<Rightarrow> symbol_table st =
          [(''a'', 10000, ''integer''), (''b'', 10001, ''integer''), (''c'', 10002, ''boolean'')]"
    by code_simp
  then obtain st where st: "compile ''$$ integer a, b; boolean c; $$ a = 1; $$'' = Inr st"
    and tb: "symbol_table st =
          [(''a'', 10000, ''integer''), (''b'', 10001, ''integer''), (''c'', 10002, ''boolean'')]"
    by (cases "compile ''$$ integer a, b; boolean c; $$ a = 1; $$''") simp_all
  have "case insert_identifier ''a'' ''integer'' (reset []) of Inl e \<Rightarrow> False | Inr s' \<Rightarrow> True"
    by code_simp
  then obtain s' where s': "insert_identifier ''a'' ''integer'' (reset []) = Inr s'"
    by (cases "insert_identifier ''a'' ''integer'' (reset [])") simp_all
  from st have "parse_rat25s (depth_bound (lexer ''$$ integer a, b; boolean c; $$ a = 1; $$''))
      (reset (lexer ''$$ integer a, b; boolean c; $$ a = 1; $$'')) = Inr st"
    by (simp add: compile_def run_def)
  from symbol_addresses [of _ _ st "''a''" "''integer''" "reset []" s'] this s' st tb
  show ?thesis
    by (simp add: reset_def)
qed

section \<open>The instructions of conditions and of control statements\<close>

lemma emit_Inr_eq:
  assumes "emit op args cmt st = Inr st'" and "1 \<le> instr_ptr st"
  shows "st' = st\<lparr>instructions := (instructions st)
             [instr_ptr st - 1 := Some \<lparr>pos = instr_ptr st, opcode = op, operands = args, comment = cmt\<rparr>],
            instr_ptr := instr_ptr st + 1\<rparr>"
    and "instr_ptr st \<le> length (instructions st)"
  using assms by (auto simp: emit_def bind_Inr_iff dest: py_setitem_Inr)

lemma patch_Inr_eq:
  assumes "patch p e st = Inr st'" and "1 \<le> p"
  shows "st' = st\<lparr>instructions := (instructions st)
           [p - 1 := Some \<lparr>pos = p, opcode = ''JMP0'', operands = [Num (int e)], comment = None\<rparr>]\<rparr>"
    and "p \<le> length (instructions st)"
  using assms by (auto simp: patch_def bind_Inr_iff dest: py_setitem_Inr)

lemma keeps_expression: "step_rel keeps (expression n)"
  by (rule step_rel_expression [OF closed_rel_keeps, THEN conjunct1])

lemma keeps_statement_list: "step_rel keeps (statement_list n ts)"
  using step_rel_statements [OF closed_rel_keeps patch_rel_keeps, of n] by blast

lemma keeps_statement: "step_rel keeps (statement n)"
  using step_rel_statements [OF closed_rel_keeps patch_rel_keeps, of n] by blast

lemma keepsD:
  assumes "keeps st st'" and "1 \<le> instr_ptr st"
  shows "length (instructions st') = length (instructions st)"
    and "instr_ptr st \<le> instr_ptr st'"
    and "\<And>i. i + 1 < instr_ptr st \<Longrightarrow> instructions st' ! i = instructions st ! i"
  using assms unfolding keeps_def by simp_all

text \<open>The opcodes of \<^verbatim>\<open>cmp_map\<close>.\<close>

definition comparison_opcodes :: "string list" where
  "comparison_opcodes = map snd cmp_map"

lemma condition_Inr:
  assumes c: "condition n st = Inr st'" and p: "1 \<le> instr_ptr st"
  obtains cmp cmt where "cmp \<in> set comparison_opcodes"
    and "instr_ptr st < instr_ptr st'"
    and "instr_ptr st' \<le> length (instructions st') + 1"
    and "instructions st' ! (instr_ptr st' - 2) =
           Some \<lparr>pos = instr_ptr st' - 1, opcode = cmp, operands = [], comment = cmt\<rparr>"
proof -
  from c obtain st1 st2 cmp and t :: Token where a: "expression n st = Inr st1"
    and b: "seq [match Operator None, expression n] st1 = Inr st2"
    and m: "map_of cmp_map (lexeme t) = Some cmp"
    and d: "emit cmp [] (Some (''compare '' @ lexeme t)) st2 = Inr st'"
    unfolding condition_def bind_Inr_iff option_Inr_iff by blast
  have "step_rel keeps (seq [match Operator None, expression n])"
    by (intro step_rel_intros closed_rel_keeps keeps_expression)
  from step_relD [OF this b] have k2: "keeps st1 st2" .
  note k1 = keepsD [OF step_relD [OF keeps_expression a] p]
  from k1(2) p have p1: "1 \<le> instr_ptr st1" by simp
  note k2 = keepsD [OF k2 p1]
  from k2(2) p1 have p2: "1 \<le> instr_ptr st2" by simp
  note e = emit_Inr_eq [OF d p2]
  from m have "cmp \<in> set comparison_opcodes"
    unfolding comparison_opcodes_def by (metis map_of_SomeD set_zip_rightD zip_map_fst_snd)
  moreover from e(1) k1(2) k2(2) have "instr_ptr st < instr_ptr st'"
    by simp
  moreover from e have "instr_ptr st' \<le> length (instructions st') + 1"
    by simp
  moreover from e p2 have "instructions st' ! (instr_ptr st' - 2) =
      Some \<lparr>pos = instr_ptr st' - 1, opcode = cmp, operands = [],
            comment = Some (''compare '' @ lexeme t)\<rparr>"
    by simp
  ultimately show thesis by (rule that)
qed

text \<open>The instruction listing of a state: the slots and the pointer.\<close>

definition code :: "state \<Rightarrow> instruction option list \<times> nat" where
  "code st = (instructions st, instr_ptr st)"

lemma code_advance: "code (advance st) = code st"
  by (simp add: code_def advance_def)

lemma comparison_opcodes_eq:
  "comparison_opcodes = [''CMP_LT'', ''CMP_GT'', ''CMP_EQ'', ''CMP_NE'', ''CMP_LE'', ''CMP_GE'']"
  by (simp add: comparison_opcodes_def cmp_map_def)

text \<open>
  The test \<^verbatim>\<open>self.current_token and self.current_token.lexeme == "else"\<close> of
  \<^verbatim>\<open>if_statement\<close>.
\<close>

definition at_else :: "state \<Rightarrow> bool" where
  "at_else st = (case current_token st of None \<Rightarrow> False | Some t \<Rightarrow> lexeme t = ''else'')"

lemma seq2_match_Inr:
  assumes "seq (match k l # match k' l' # fs) st = Inr st'"
  shows "seq fs (advance (advance st)) = Inr st'"
  using assms by (auto simp: seq_Cons_Inr dest!: match_Inr)

lemma if_statement_parts:
  assumes i: "if_statement (Suc n) st = Inr st'"
  obtains st_c st_t where "condition n (advance (advance st)) = Inr st_c"
    and "statement n (advance st_c) = Inr st_t"
    and "\<not> at_else st_t \<and> code st' = code st_t \<or>
         at_else st_t \<and>
         (\<exists>st_e. statement n (advance st_t) = Inr st_e \<and> code st' = code st_e)"
proof -
  from i obtain st1 where
    s1: "seq [match Keyword (Some ''if''), match Separator (Some ''(''), condition n,
          match Separator (Some '')''), statement n] st = Inr st1"
    and s2: "(case current_token st1 of
             None \<Rightarrow> match Keyword (Some ''endif'') st1
           | Some t \<Rightarrow>
               if lexeme t = ''else''
               then seq [match Keyword (Some ''else''), statement n,
                         match Keyword (Some ''endif'')] st1
               else match Keyword (Some ''endif'') st1) = Inr st'"
    unfolding if_statement.simps bind_Inr_iff by blast
  from seq2_match_Inr [OF s1] obtain st_c where
    c: "condition n (advance (advance st)) = Inr st_c"
    and t: "statement n (advance st_c) = Inr st1"
    by (auto simp: seq_Cons_Inr seq_Nil_Inr dest!: match_Inr)
  have "\<not> at_else st1 \<and> code st' = code st1 \<or>
         at_else st1 \<and>
         (\<exists>st_e. statement n (advance st1) = Inr st_e \<and> code st' = code st_e)"
  proof (cases "at_else st1")
    case True
    with s2 have "seq [match Keyword (Some ''else''), statement n,
                         match Keyword (Some ''endif'')] st1 = Inr st'"
      by (cases "current_token st1") (simp_all add: at_else_def)
    then obtain st_e where "statement n (advance st1) = Inr st_e" and "st' = advance st_e"
      by (auto simp: seq_Cons_Inr seq_Nil_Inr dest!: match_Inr)
    with True show ?thesis
      by (auto simp: code_advance)
  next
    case False
    with s2 have "match Keyword (Some ''endif'') st1 = Inr st'"
      by (cases "current_token st1") (simp_all add: at_else_def)
    then have "st' = advance st1"
      by (simp add: match_Inr)
    with False show ?thesis
      by (simp add: code_advance)
  qed
  with c t show thesis by (rule that)
qed

text \<open>
  Claim C5.  A successful \<^verbatim>\<open>if_statement\<close> is the condition, run right after the tokens
  \<^verbatim>\<open>if (\<close>, then the branch statement, run right after \<^verbatim>\<open>)\<close>, then, exactly when the
  next token is \<^verbatim>\<open>else\<close>, the second branch statement, run right after \<^verbatim>\<open>else\<close>.
  Matching a token leaves the instruction listing as it is.  So without \<^verbatim>\<open>else\<close> the
  listing after the \<^verbatim>\<open>if\<close> is the listing after the first branch, and with \<^verbatim>\<open>else\<close> it
  is the listing after the second branch: the construct writes no instruction of its own,
  in particular no jump, and drops none of its parts.  The last instruction of the
  condition is one of the six comparisons.
\<close>

theorem if_statement_no_jump:
  assumes "if_statement (Suc n) st = Inr st'" and "1 \<le> instr_ptr st"
  shows "\<exists>st_c st_t cmp cmt.
     code (advance (advance st)) = code st \<and>
     condition n (advance (advance st)) = Inr st_c \<and>
     cmp \<in> set [''CMP_LT'', ''CMP_GT'', ''CMP_EQ'', ''CMP_NE'', ''CMP_LE'', ''CMP_GE''] \<and>
     instr_ptr st < instr_ptr st_c \<and>
     instructions st_c ! (instr_ptr st_c - 2) =
       Some \<lparr>pos = instr_ptr st_c - 1, opcode = cmp, operands = [], comment = cmt\<rparr> \<and>
     code (advance st_c) = code st_c \<and>
     statement n (advance st_c) = Inr st_t \<and>
     (\<not> at_else st_t \<and> code st' = code st_t \<or>
      at_else st_t \<and>
      (\<exists>st_e. code (advance st_t) = code st_t \<and>
              statement n (advance st_t) = Inr st_e \<and> code st' = code st_e))"
proof -
  from assms(1) obtain st_c st_t where c: "condition n (advance (advance st)) = Inr st_c"
    and t: "statement n (advance st_c) = Inr st_t"
    and e: "\<not> at_else st_t \<and> code st' = code st_t \<or>
         at_else st_t \<and>
         (\<exists>st_e. statement n (advance st_t) = Inr st_e \<and> code st' = code st_e)"
    by (rule if_statement_parts)
  from assms(2) have p: "1 \<le> instr_ptr (advance (advance st))"
    by (simp add: advance_def)
  from c p obtain cmp cmt where cm: "cmp \<in> set comparison_opcodes"
    and lt: "instr_ptr (advance (advance st)) < instr_ptr st_c"
    and ci: "instructions st_c ! (instr_ptr st_c - 2) =
           Some \<lparr>pos = instr_ptr st_c - 1, opcode = cmp, operands = [], comment = cmt\<rparr>"
    by (rule condition_Inr)
  from cm have cm': "cmp \<in> set [''CMP_LT'', ''CMP_GT'', ''CMP_EQ'', ''CMP_NE'', ''CMP_LE'', ''CMP_GE'']"
    by (simp only: comparison_opcodes_eq)
  from lt have lt': "instr_ptr st < instr_ptr st_c"
    by (simp add: advance_def)
  from e have e': "\<not> at_else st_t \<and> code st' = code st_t \<or>
      at_else st_t \<and>
      (\<exists>st_e. code (advance st_t) = code st_t \<and>
              statement n (advance st_t) = Inr st_e \<and> code st' = code st_e)"
    by (simp add: code_advance)
  have c0: "code (advance (advance st)) = code st" and c1: "code (advance st_c) = code st_c"
    by (simp_all add: code_advance)
  from c0 c cm' lt' ci c1 t e' show ?thesis
    by blast
qed

theorem if_statement_no_jump_witness:
  "\<exists>st' st_c st_t st_e.
     if_statement (Suc 6) (reset (lexer ''if (1 < 2) print(1); else print(2); endif'')) = Inr st' \<and>
     print_assembly st' =
       [\<lparr>pos = 1, opcode = ''PUSHI'', operands = [Num 1], comment = None\<rparr>,
        \<lparr>pos = 2, opcode = ''PUSHI'', operands = [Num 2], comment = None\<rparr>,
        \<lparr>pos = 3, opcode = ''CMP_LT'', operands = [], comment = Some ''compare <''\<rparr>,
        \<lparr>pos = 4, opcode = ''PUSHI'', operands = [Num 1], comment = None\<rparr>,
        \<lparr>pos = 5, opcode = ''SOUT'', operands = [], comment = None\<rparr>,
        \<lparr>pos = 6, opcode = ''PUSHI'', operands = [Num 2], comment = None\<rparr>,
        \<lparr>pos = 7, opcode = ''SOUT'', operands = [], comment = None\<rparr>] \<and>
     instr_ptr st' = 8 \<and>
     condition 6 (advance (advance (reset (lexer ''if (1 < 2) print(1); else print(2); endif''))))
       = Inr st_c \<and>
     instr_ptr st_c = 4 \<and>
     statement 6 (advance st_c) = Inr st_t \<and> instr_ptr st_t = 6 \<and> at_else st_t \<and>
     statement 6 (advance st_t) = Inr st_e \<and> code st' = code st_e"
proof -
  let ?st = "reset (lexer ''if (1 < 2) print(1); else print(2); endif'')"
  have "case if_statement (Suc 6) ?st of
          Inl e \<Rightarrow> False
        | Inr st' \<Rightarrow>
            print_assembly st' =
              [\<lparr>pos = 1, opcode = ''PUSHI'', operands = [Num 1], comment = None\<rparr>,
               \<lparr>pos = 2, opcode = ''PUSHI'', operands = [Num 2], comment = None\<rparr>,
               \<lparr>pos = 3, opcode = ''CMP_LT'', operands = [], comment = Some ''compare <''\<rparr>,
               \<lparr>pos = 4, opcode = ''PUSHI'', operands = [Num 1], comment = None\<rparr>,
               \<lparr>pos = 5, opcode = ''SOUT'', operands = [], comment = None\<rparr>,
               \<lparr>pos = 6, opcode = ''PUSHI'', operands = [Num 2], comment = None\<rparr>,
               \<lparr>pos = 7, opcode = ''SOUT'', operands = [], comment = None\<rparr>] \<and>
            instr_ptr st' = 8"
    by code_simp
  then obtain st' where a: "if_statement (Suc 6) ?st = Inr st'"
    and l: "print_assembly st' =
              [\<lparr>pos = 1, opcode = ''PUSHI'', operands = [Num 1], comment = None\<rparr>,
               \<lparr>pos = 2, opcode = ''PUSHI'', operands = [Num 2], comment = None\<rparr>,
               \<lparr>pos = 3, opcode = ''CMP_LT'', operands = [], comment = Some ''compare <''\<rparr>,
               \<lparr>pos = 4, opcode = ''PUSHI'', operands = [Num 1], comment = None\<rparr>,
               \<lparr>pos = 5, opcode = ''SOUT'', operands = [], comment = None\<rparr>,
               \<lparr>pos = 6, opcode = ''PUSHI'', operands = [Num 2], comment = None\<rparr>,
               \<lparr>pos = 7, opcode = ''SOUT'', operands = [], comment = None\<rparr>]"
    and ip: "instr_ptr st' = 8"
    by (cases "if_statement (Suc 6) ?st") simp_all
  have ev: "case condition 6 (advance (advance ?st)) of
          Inl e \<Rightarrow> False
        | Inr st_c \<Rightarrow>
            instr_ptr st_c = 4 \<and>
            (case statement 6 (advance st_c) of
               Inl e \<Rightarrow> False
             | Inr st_t \<Rightarrow> instr_ptr st_t = 6 \<and> at_else st_t)"
    by code_simp
  have b: "1 \<le> instr_ptr ?st"
    by (simp add: reset_def)
  from if_statement_no_jump [OF a b] obtain st_c st_t where
    c: "condition 6 (advance (advance ?st)) = Inr st_c"
    and t: "statement 6 (advance st_c) = Inr st_t"
    and e: "\<not> at_else st_t \<and> code st' = code st_t \<or>
      at_else st_t \<and>
      (\<exists>st_e. code (advance st_t) = code st_t \<and>
              statement 6 (advance st_t) = Inr st_e \<and> code st' = code st_e)"
    by blast
  from ev c t have f: "instr_ptr st_c = 4" "instr_ptr st_t = 6" "at_else st_t"
    by simp_all
  with e obtain st_e where "statement 6 (advance st_t) = Inr st_e" and "code st' = code st_e"
    by blast
  with a l ip c t f show ?thesis
    by blast
qed

text \<open>The state in which the body of a loop starts, given the state after its condition.\<close>

definition body_entry :: "state \<Rightarrow> state" where
  "body_entry st_c =
     (advance (advance st_c))
       \<lparr>instructions := (instructions st_c)
          [instr_ptr st_c - 1 :=
             Some \<lparr>pos = instr_ptr st_c, opcode = ''LABEL'', operands = [], comment = None\<rparr>,
           instr_ptr st_c :=
             Some \<lparr>pos = instr_ptr st_c + 1, opcode = ''JMP0'', operands = [Num 0],
                   comment = None\<rparr>],
        instr_ptr := instr_ptr st_c + 2\<rparr>"

lemma while_statement_parts:
  assumes w: "while_statement (Suc n) st = Inr st'" and p: "1 \<le> instr_ptr st"
  obtains st_c st_b where "condition n (advance (advance st)) = Inr st_c"
    and "instr_ptr st < instr_ptr st_c"
    and "instr_ptr st_c + 1 \<le> length (instructions st_c)"
    and "statement_list n [''}''] (body_entry st_c) = Inr st_b"
    and "instr_ptr st_c + 2 \<le> instr_ptr st_b"
    and "instr_ptr st_b \<le> length (instructions st_b)"
    and "length (instructions st_b) = length (instructions st_c)"
    and "\<forall>i. i < instr_ptr st_c + 1 \<longrightarrow>
           instructions st_b ! i = instructions (body_entry st_c) ! i"
    and "instr_ptr st' = instr_ptr st_b + 1"
    and "instructions st' = (instructions st_b)
           [instr_ptr st_b - 1 :=
              Some \<lparr>pos = instr_ptr st_b, opcode = ''JMP'',
                    operands = [Num (int (instr_ptr st_c))], comment = None\<rparr>,
            instr_ptr st_c :=
              Some \<lparr>pos = instr_ptr st_c + 1, opcode = ''JMP0'',
                    operands = [Num (int (instr_ptr st_b + 1))], comment = None\<rparr>]"
proof -
  from w obtain st1 st2 st3 st4 where
    s1: "seq [match Keyword (Some ''while''), match Separator (Some ''(''), condition n,
          match Separator (Some '')'')] st = Inr st1"
    and s2: "emit ''LABEL'' [] None st1 = Inr st2"
    and s3: "seq [emit ''JMP0'' [Num 0] None, match Separator (Some ''{''),
              statement_list n [''}''], match Separator (Some ''}''),
              emit ''JMP'' [Num (int (instr_ptr st1))] None] st2 = Inr st3"
    and s4: "patch (instr_ptr st2) (instr_ptr st3) st3 = Inr st4"
    and s5: "match Keyword (Some ''endwhile'') st4 = Inr st'"
    by (rule while_statement_Inr)
  from seq2_match_Inr [OF s1] obtain st_c where
    c: "condition n (advance (advance st)) = Inr st_c" and st1: "st1 = advance st_c"
    by (auto simp: seq_Cons_Inr seq_Nil_Inr dest!: match_Inr)
  from p have "1 \<le> instr_ptr (advance (advance st))"
    by (simp add: advance_def)
  with c obtain cmp cmt where lt0: "instr_ptr (advance (advance st)) < instr_ptr st_c"
    by (rule condition_Inr)
  then have lt: "instr_ptr st < instr_ptr st_c"
    by (simp add: advance_def)
  with p have pc: "1 \<le> instr_ptr st_c" by simp
  then have p1: "1 \<le> instr_ptr st1" by (simp add: st1 advance_def)
  note e2 = emit_Inr_eq [OF s2 p1]
  from s3 obtain sj st_b st3' where j: "emit ''JMP0'' [Num 0] None st2 = Inr sj"
    and b: "statement_list n [''}''] (advance sj) = Inr st_b"
    and st3': "st3' = advance st_b"
    and e3: "emit ''JMP'' [Num (int (instr_ptr st1))] None st3' = Inr st3"
    by (auto simp: seq_Cons_Inr seq_Nil_Inr dest!: match_Inr)
  from e2(1) have p2: "1 \<le> instr_ptr st2" by simp
  note ej = emit_Inr_eq [OF j p2]
  have entry: "advance sj = body_entry st_c"
    unfolding ej(1) e2(1) st1 body_entry_def by (simp add: advance_def)
  have pe: "1 \<le> instr_ptr (body_entry st_c)"
    by (simp add: body_entry_def)
  from b entry have b': "statement_list n [''}''] (body_entry st_c) = Inr st_b"
    by simp
  note k = keepsD [OF step_relD [OF keeps_statement_list b'] pe]
  have ipe: "instr_ptr (body_entry st_c) = instr_ptr st_c + 2"
    by (simp add: body_entry_def)
  have len_e: "length (instructions (body_entry st_c)) = length (instructions st_c)"
    by (simp add: body_entry_def)
  from k(2) ipe have ge: "instr_ptr st_c + 2 \<le> instr_ptr st_b" by simp
  then have p3: "1 \<le> instr_ptr st3'" by (simp add: st3' advance_def)
  note e3' = emit_Inr_eq [OF e3 p3]
  note e4 = patch_Inr_eq [OF s4 p2]
  from s5 have st': "st' = advance st4" by (simp add: match_Inr)
  have cap: "instr_ptr st_c + 1 \<le> length (instructions st_c)"
    using ej(2) e2(1) by (simp add: st1 advance_def)
  have "instr_ptr st_b \<le> length (instructions st_b)"
    using e3'(2) by (simp add: st3' advance_def)
  moreover have "length (instructions st_b) = length (instructions st_c)"
    using k(1) len_e by simp
  moreover have "\<forall>i. i < instr_ptr st_c + 1 \<longrightarrow>
           instructions st_b ! i = instructions (body_entry st_c) ! i"
    using k(3) ipe by simp
  moreover have "instr_ptr st' = instr_ptr st_b + 1"
    unfolding st' e4(1) e3'(1) st3' by (simp add: advance_def)
  moreover have "instructions st' = (instructions st_b)
           [instr_ptr st_b - 1 :=
              Some \<lparr>pos = instr_ptr st_b, opcode = ''JMP'',
                    operands = [Num (int (instr_ptr st_c))], comment = None\<rparr>,
            instr_ptr st_c :=
              Some \<lparr>pos = instr_ptr st_c + 1, opcode = ''JMP0'',
                    operands = [Num (int (instr_ptr st_b + 1))], comment = None\<rparr>]"
    unfolding st' e4(1) e3'(1) st3' e2(1) st1 by (simp add: advance_def)
  ultimately show thesis
    using c lt cap b' ge by (rule that [rotated 5])
qed

lemma while_statement_slots:
  assumes w: "while_statement (Suc n) st = Inr st'" and p: "1 \<le> instr_ptr st"
  obtains st_c st_b where "condition n (advance (advance st)) = Inr st_c"
    and "instr_ptr st < instr_ptr st_c"
    and "statement_list n [''}''] (body_entry st_c) = Inr st_b"
    and "instr_ptr st_c + 2 \<le> instr_ptr st_b"
    and "instr_ptr st' = instr_ptr st_b + 1"
    and "instructions (body_entry st_c) ! instr_ptr st_c =
           Some \<lparr>pos = instr_ptr st_c + 1, opcode = ''JMP0'', operands = [Num 0], comment = None\<rparr>"
    and "instructions st_b ! instr_ptr st_c =
           Some \<lparr>pos = instr_ptr st_c + 1, opcode = ''JMP0'', operands = [Num 0], comment = None\<rparr>"
    and "instructions st' ! (instr_ptr st_c - 1) =
           Some \<lparr>pos = instr_ptr st_c, opcode = ''LABEL'', operands = [], comment = None\<rparr>"
    and "instructions st' ! instr_ptr st_c =
           Some \<lparr>pos = instr_ptr st_c + 1, opcode = ''JMP0'',
                 operands = [Num (int (instr_ptr st'))], comment = None\<rparr>"
    and "instructions st' ! (instr_ptr st_b - 1) =
           Some \<lparr>pos = instr_ptr st_b, opcode = ''JMP'',
                 operands = [Num (int (instr_ptr st_c))], comment = None\<rparr>"
    and "\<forall>i. i \<noteq> instr_ptr st_c \<and> i \<noteq> instr_ptr st_b - 1 \<longrightarrow>
           instructions st' ! i = instructions st_b ! i"
    and "\<forall>i. i + 1 < instr_ptr st_c \<longrightarrow> instructions st' ! i = instructions st_c ! i"
proof -
  from w p obtain st_c st_b where c: "condition n (advance (advance st)) = Inr st_c"
    and lt: "instr_ptr st < instr_ptr st_c"
    and cap: "instr_ptr st_c + 1 \<le> length (instructions st_c)"
    and b: "statement_list n [''}''] (body_entry st_c) = Inr st_b"
    and ge: "instr_ptr st_c + 2 \<le> instr_ptr st_b"
    and capb: "instr_ptr st_b \<le> length (instructions st_b)"
    and len: "length (instructions st_b) = length (instructions st_c)"
    and same': "\<forall>i. i < instr_ptr st_c + 1 \<longrightarrow>
                 instructions st_b ! i = instructions (body_entry st_c) ! i"
    and ip: "instr_ptr st' = instr_ptr st_b + 1"
    and ins: "instructions st' = (instructions st_b)
           [instr_ptr st_b - 1 :=
              Some \<lparr>pos = instr_ptr st_b, opcode = ''JMP'',
                    operands = [Num (int (instr_ptr st_c))], comment = None\<rparr>,
            instr_ptr st_c :=
              Some \<lparr>pos = instr_ptr st_c + 1, opcode = ''JMP0'',
                    operands = [Num (int (instr_ptr st_b + 1))], comment = None\<rparr>]"
    by (rule while_statement_parts)
  from same' have same: "instructions st_b ! i = instructions (body_entry st_c) ! i"
    if "i < instr_ptr st_c + 1" for i
    using that by simp
  let ?L = "instr_ptr st_c"
  from lt p have L: "1 \<le> ?L" by simp
  have e1: "instructions (body_entry st_c) ! ?L =
           Some \<lparr>pos = ?L + 1, opcode = ''JMP0'', operands = [Num 0], comment = None\<rparr>"
    using cap by (simp add: body_entry_def)
  have e0: "instructions (body_entry st_c) ! (?L - 1) =
           Some \<lparr>pos = ?L, opcode = ''LABEL'', operands = [], comment = None\<rparr>"
    using cap L by (simp add: body_entry_def)
  have ee: "instructions (body_entry st_c) ! i = instructions st_c ! i" if "i + 1 < ?L" for i
    using that by (simp add: body_entry_def)
  have b1: "instructions st_b ! ?L =
           Some \<lparr>pos = ?L + 1, opcode = ''JMP0'', operands = [Num 0], comment = None\<rparr>"
    using same [of ?L] e1 by simp
  have b0: "instructions st_b ! (?L - 1) =
           Some \<lparr>pos = ?L, opcode = ''LABEL'', operands = [], comment = None\<rparr>"
    using same [of "?L - 1"] e0 by simp
  have s0: "instructions st' ! (?L - 1) =
           Some \<lparr>pos = ?L, opcode = ''LABEL'', operands = [], comment = None\<rparr>"
    using b0 L ge unfolding ins by simp
  have s1: "instructions st' ! ?L =
           Some \<lparr>pos = ?L + 1, opcode = ''JMP0'',
                 operands = [Num (int (instr_ptr st'))], comment = None\<rparr>"
    using cap len unfolding ins ip by simp
  have s2: "instructions st' ! (instr_ptr st_b - 1) =
           Some \<lparr>pos = instr_ptr st_b, opcode = ''JMP'',
                 operands = [Num (int ?L)], comment = None\<rparr>"
    using capb ge unfolding ins by simp
  have s3: "instructions st' ! i = instructions st_b ! i"
    if "i \<noteq> ?L" "i \<noteq> instr_ptr st_b - 1" for i
    using that unfolding ins by simp
  have s4: "instructions st' ! i = instructions st_c ! i" if "i + 1 < ?L" for i
  proof -
    from that ge have "i \<noteq> ?L" "i \<noteq> instr_ptr st_b - 1" by simp_all
    from s3 [OF this] same [of i] ee [OF that] that show ?thesis by simp
  qed
  from s3 have s3': "\<forall>i. i \<noteq> ?L \<and> i \<noteq> instr_ptr st_b - 1 \<longrightarrow>
           instructions st' ! i = instructions st_b ! i"
    by simp
  from s4 have s4': "\<forall>i. i + 1 < ?L \<longrightarrow> instructions st' ! i = instructions st_c ! i"
    by simp
  from c lt b ge ip e1 b1 s0 s1 s2 s3' s4' show thesis
    by (rule that)
qed

text \<open>
  Claim C2.  A successful \<^verbatim>\<open>while_statement\<close> runs its condition and then, from the state
  \<open>body_entry\<close> in which LABEL and the placeholder JMP0 0 have been written at the two
  positions after the condition, its body.  Write \<open>L\<close> for the position of LABEL.  The
  placeholder at position \<open>L + 1\<close> is still there when the body ends; afterwards it holds
  JMP0 with the instruction pointer after the loop as target, which is greater than \<open>L\<close>;
  the slot right after the body holds JMP \<open>L\<close>, the pointer after the loop is one more
  than the position of that JMP, and no other slot differs from the state after the body.
\<close>

theorem while_statement_backpatch:
  assumes "while_statement (Suc n) st = Inr st'" and "1 \<le> instr_ptr st"
  shows "\<exists>st_c st_b.
     condition n (advance (advance st)) = Inr st_c \<and>
     statement_list n [''}''] (body_entry st_c) = Inr st_b \<and>
     instructions (body_entry st_c) ! instr_ptr st_c =
       Some \<lparr>pos = instr_ptr st_c + 1, opcode = ''JMP0'', operands = [Num 0], comment = None\<rparr> \<and>
     instructions st_b ! instr_ptr st_c =
       Some \<lparr>pos = instr_ptr st_c + 1, opcode = ''JMP0'', operands = [Num 0], comment = None\<rparr> \<and>
     instructions st' ! (instr_ptr st_c - 1) =
       Some \<lparr>pos = instr_ptr st_c, opcode = ''LABEL'', operands = [], comment = None\<rparr> \<and>
     instructions st' ! instr_ptr st_c =
       Some \<lparr>pos = instr_ptr st_c + 1, opcode = ''JMP0'',
             operands = [Num (int (instr_ptr st'))], comment = None\<rparr> \<and>
     instr_ptr st_c < instr_ptr st' \<and>
     instr_ptr st_c + 2 \<le> instr_ptr st_b \<and>
     instructions st' ! (instr_ptr st_b - 1) =
       Some \<lparr>pos = instr_ptr st_b, opcode = ''JMP'',
             operands = [Num (int (instr_ptr st_c))], comment = None\<rparr> \<and>
     instr_ptr st' = instr_ptr st_b + 1 \<and>
     (\<forall>i. i \<noteq> instr_ptr st_c \<and> i \<noteq> instr_ptr st_b - 1 \<longrightarrow>
          instructions st' ! i = instructions st_b ! i)"
proof -
  from assms obtain st_c st_b where "condition n (advance (advance st)) = Inr st_c"
    and "instr_ptr st < instr_ptr st_c"
    and "statement_list n [''}''] (body_entry st_c) = Inr st_b"
    and "instr_ptr st_c + 2 \<le> instr_ptr st_b"
    and "instr_ptr st' = instr_ptr st_b + 1"
    and "instructions (body_entry st_c) ! instr_ptr st_c =
           Some \<lparr>pos = instr_ptr st_c + 1, opcode = ''JMP0'', operands = [Num 0], comment = None\<rparr>"
    and "instructions st_b ! instr_ptr st_c =
           Some \<lparr>pos = instr_ptr st_c + 1, opcode = ''JMP0'', operands = [Num 0], comment = None\<rparr>"
    and "instructions st' ! (instr_ptr st_c - 1) =
           Some \<lparr>pos = instr_ptr st_c, opcode = ''LABEL'', operands = [], comment = None\<rparr>"
    and "instructions st' ! instr_ptr st_c =
           Some \<lparr>pos = instr_ptr st_c + 1, opcode = ''JMP0'',
                 operands = [Num (int (instr_ptr st'))], comment = None\<rparr>"
    and "instructions st' ! (instr_ptr st_b - 1) =
           Some \<lparr>pos = instr_ptr st_b, opcode = ''JMP'',
                 operands = [Num (int (instr_ptr st_c))], comment = None\<rparr>"
    and "\<forall>i. i \<noteq> instr_ptr st_c \<and> i \<noteq> instr_ptr st_b - 1 \<longrightarrow>
           instructions st' ! i = instructions st_b ! i"
    and "\<forall>i. i + 1 < instr_ptr st_c \<longrightarrow> instructions st' ! i = instructions st_c ! i"
    by (rule while_statement_slots)
  then show ?thesis
    by (intro exI [of _ st_c] exI [of _ st_b]) simp
qed

theorem while_statement_backpatch_witness:
  "\<exists>st' st_c st_b.
     while_statement (Suc 8) (reset (lexer ''while (1 < 2) { print(3); } endwhile'')) = Inr st' \<and>
     condition 8 (advance (advance (reset (lexer ''while (1 < 2) { print(3); } endwhile'')))) = Inr st_c \<and>
     statement_list 8 [''}''] (body_entry st_c) = Inr st_b \<and>
     instructions st' ! instr_ptr st_c =
       Some \<lparr>pos = instr_ptr st_c + 1, opcode = ''JMP0'',
             operands = [Num (int (instr_ptr st'))], comment = None\<rparr> \<and>
     instructions st' ! (instr_ptr st_b - 1) =
       Some \<lparr>pos = instr_ptr st_b, opcode = ''JMP'',
             operands = [Num (int (instr_ptr st_c))], comment = None\<rparr> \<and>
     instr_ptr st' = instr_ptr st_b + 1 \<and> instr_ptr st_c < instr_ptr st'"
proof -
  let ?st = "reset (lexer ''while (1 < 2) { print(3); } endwhile'')"
  have "case while_statement (Suc 8) ?st of Inl e \<Rightarrow> False | Inr st' \<Rightarrow> True"
    by code_simp
  then obtain st' where a: "while_statement (Suc 8) ?st = Inr st'"
    by (cases "while_statement (Suc 8) ?st") simp_all
  have b: "1 \<le> instr_ptr ?st"
    by (simp add: reset_def)
  from while_statement_backpatch [OF a b] a show ?thesis
    by blast
qed

text \<open>
  Claim C9.  In a successful \<^verbatim>\<open>while_statement\<close> the condition is run once, before LABEL
  is written: its instructions lie at the positions below the position \<open>L\<close> of LABEL,
  the last of them, at \<open>L - 1\<close>, is one of the six comparisons, and they are the same in
  the final state as right after the condition.  From LABEL on, the final listing is:
  LABEL at \<open>L\<close>, the patched JMP0 at \<open>L + 1\<close>, then what the body has written when run
  from \<open>body_entry\<close> (the state right after the condition with LABEL and the placeholder
  added, so the body writes from \<open>L + 2\<close> on), then the backward JMP with target \<open>L\<close> as
  the last instruction; every slot other than those of JMP0 and JMP is as the body left
  it.  So the positions from the target of the backward JMP to the JMP itself hold the
  loop's own three instructions and the body's, and no instruction of the condition.
\<close>

theorem while_condition_before_label:
  assumes "while_statement (Suc n) st = Inr st'" and "1 \<le> instr_ptr st"
  shows "\<exists>st_c st_b cmp cmt.
     code (advance (advance st)) = code st \<and>
     condition n (advance (advance st)) = Inr st_c \<and>
     instr_ptr st < instr_ptr st_c \<and>
     (\<forall>i. i + 1 < instr_ptr st_c \<longrightarrow> instructions st' ! i = instructions st_c ! i) \<and>
     cmp \<in> set [''CMP_LT'', ''CMP_GT'', ''CMP_EQ'', ''CMP_NE'', ''CMP_LE'', ''CMP_GE''] \<and>
     instructions st' ! (instr_ptr st_c - 2) =
       Some \<lparr>pos = instr_ptr st_c - 1, opcode = cmp, operands = [], comment = cmt\<rparr> \<and>
     instructions st' ! (instr_ptr st_c - 1) =
       Some \<lparr>pos = instr_ptr st_c, opcode = ''LABEL'', operands = [], comment = None\<rparr> \<and>
     instructions st' ! instr_ptr st_c =
       Some \<lparr>pos = instr_ptr st_c + 1, opcode = ''JMP0'',
             operands = [Num (int (instr_ptr st'))], comment = None\<rparr> \<and>
     statement_list n [''}''] (body_entry st_c) = Inr st_b \<and>
     instr_ptr st_c + 2 \<le> instr_ptr st_b \<and>
     (\<forall>i. i \<noteq> instr_ptr st_c \<and> i \<noteq> instr_ptr st_b - 1 \<longrightarrow>
          instructions st' ! i = instructions st_b ! i) \<and>
     instructions st' ! (instr_ptr st_b - 1) =
       Some \<lparr>pos = instr_ptr st_b, opcode = ''JMP'',
             operands = [Num (int (instr_ptr st_c))], comment = None\<rparr> \<and>
     instr_ptr st' = instr_ptr st_b + 1 \<and>
     instructions st' ! (instr_ptr st' - 2) =
       Some \<lparr>pos = instr_ptr st' - 1, opcode = ''JMP'',
             operands = [Num (int (instr_ptr st_c))], comment = None\<rparr> \<and>
     instr_ptr st_c + 3 \<le> instr_ptr st'"
proof -
  from assms obtain st_c st_b where c: "condition n (advance (advance st)) = Inr st_c"
    and lt: "instr_ptr st < instr_ptr st_c"
    and b: "statement_list n [''}''] (body_entry st_c) = Inr st_b"
    and ge: "instr_ptr st_c + 2 \<le> instr_ptr st_b"
    and ip: "instr_ptr st' = instr_ptr st_b + 1"
    and "instructions (body_entry st_c) ! instr_ptr st_c =
           Some \<lparr>pos = instr_ptr st_c + 1, opcode = ''JMP0'', operands = [Num 0], comment = None\<rparr>"
    and "instructions st_b ! instr_ptr st_c =
           Some \<lparr>pos = instr_ptr st_c + 1, opcode = ''JMP0'', operands = [Num 0], comment = None\<rparr>"
    and lab: "instructions st' ! (instr_ptr st_c - 1) =
           Some \<lparr>pos = instr_ptr st_c, opcode = ''LABEL'', operands = [], comment = None\<rparr>"
    and j0: "instructions st' ! instr_ptr st_c =
           Some \<lparr>pos = instr_ptr st_c + 1, opcode = ''JMP0'',
                 operands = [Num (int (instr_ptr st'))], comment = None\<rparr>"
    and jmp: "instructions st' ! (instr_ptr st_b - 1) =
           Some \<lparr>pos = instr_ptr st_b, opcode = ''JMP'',
                 operands = [Num (int (instr_ptr st_c))], comment = None\<rparr>"
    and rest: "\<forall>i. i \<noteq> instr_ptr st_c \<and> i \<noteq> instr_ptr st_b - 1 \<longrightarrow>
           instructions st' ! i = instructions st_b ! i"
    and below': "\<forall>i. i + 1 < instr_ptr st_c \<longrightarrow> instructions st' ! i = instructions st_c ! i"
    by (rule while_statement_slots)
  from below' have below: "instructions st' ! i = instructions st_c ! i"
    if "i + 1 < instr_ptr st_c" for i
    using that by simp
  from assms(2) have p: "1 \<le> instr_ptr (advance (advance st))"
    by (simp add: advance_def)
  from c p obtain cmp cmt where cm: "cmp \<in> set comparison_opcodes"
    and ci: "instructions st_c ! (instr_ptr st_c - 2) =
           Some \<lparr>pos = instr_ptr st_c - 1, opcode = cmp, operands = [], comment = cmt\<rparr>"
    by (rule condition_Inr)
  from cm have cm': "cmp \<in> set [''CMP_LT'', ''CMP_GT'', ''CMP_EQ'', ''CMP_NE'', ''CMP_LE'', ''CMP_GE'']"
    by (simp only: comparison_opcodes_eq)
  from lt assms(2) have "instr_ptr st_c - 2 + 1 < instr_ptr st_c"
    by simp
  from below [OF this] ci have ci': "instructions st' ! (instr_ptr st_c - 2) =
           Some \<lparr>pos = instr_ptr st_c - 1, opcode = cmp, operands = [], comment = cmt\<rparr>"
    by simp
  from jmp ip have jmp': "instructions st' ! (instr_ptr st' - 2) =
       Some \<lparr>pos = instr_ptr st' - 1, opcode = ''JMP'',
             operands = [Num (int (instr_ptr st_c))], comment = None\<rparr>"
    by simp
  from ge ip have ge': "instr_ptr st_c + 3 \<le> instr_ptr st'" by simp
  have c0: "code (advance (advance st)) = code st"
    by (simp add: code_advance)
  from c0 c lt below' cm' ci' lab j0 b ge rest jmp ip jmp' ge' show ?thesis
    by blast
qed

theorem while_condition_before_label_witness:
  "\<exists>st' st_c st_b.
     while_statement (Suc 8) (reset (lexer ''while (1 < 2) { print(3); } endwhile'')) = Inr st' \<and>
     print_assembly st' =
       [\<lparr>pos = 1, opcode = ''PUSHI'', operands = [Num 1], comment = None\<rparr>,
        \<lparr>pos = 2, opcode = ''PUSHI'', operands = [Num 2], comment = None\<rparr>,
        \<lparr>pos = 3, opcode = ''CMP_LT'', operands = [], comment = Some ''compare <''\<rparr>,
        \<lparr>pos = 4, opcode = ''LABEL'', operands = [], comment = None\<rparr>,
        \<lparr>pos = 5, opcode = ''JMP0'', operands = [Num 9], comment = None\<rparr>,
        \<lparr>pos = 6, opcode = ''PUSHI'', operands = [Num 3], comment = None\<rparr>,
        \<lparr>pos = 7, opcode = ''SOUT'', operands = [], comment = None\<rparr>,
        \<lparr>pos = 8, opcode = ''JMP'', operands = [Num 4], comment = None\<rparr>] \<and>
     instr_ptr st' = 9 \<and>
     condition 8 (advance (advance (reset (lexer ''while (1 < 2) { print(3); } endwhile''))))
       = Inr st_c \<and>
     instr_ptr st_c = 4 \<and>
     statement_list 8 [''}''] (body_entry st_c) = Inr st_b \<and> instr_ptr st_b = 8 \<and>
     (\<forall>i. i \<noteq> instr_ptr st_c \<and> i \<noteq> instr_ptr st_b - 1 \<longrightarrow>
          instructions st' ! i = instructions st_b ! i) \<and>
     (\<forall>i. i + 1 < instr_ptr st_c \<longrightarrow> instructions st' ! i = instructions st_c ! i)"
proof -
  let ?st = "reset (lexer ''while (1 < 2) { print(3); } endwhile'')"
  have "case while_statement (Suc 8) ?st of
          Inl e \<Rightarrow> False
        | Inr st' \<Rightarrow>
            print_assembly st' =
              [\<lparr>pos = 1, opcode = ''PUSHI'', operands = [Num 1], comment = None\<rparr>,
               \<lparr>pos = 2, opcode = ''PUSHI'', operands = [Num 2], comment = None\<rparr>,
               \<lparr>pos = 3, opcode = ''CMP_LT'', operands = [], comment = Some ''compare <''\<rparr>,
               \<lparr>pos = 4, opcode = ''LABEL'', operands = [], comment = None\<rparr>,
               \<lparr>pos = 5, opcode = ''JMP0'', operands = [Num 9], comment = None\<rparr>,
               \<lparr>pos = 6, opcode = ''PUSHI'', operands = [Num 3], comment = None\<rparr>,
               \<lparr>pos = 7, opcode = ''SOUT'', operands = [], comment = None\<rparr>,
               \<lparr>pos = 8, opcode = ''JMP'', operands = [Num 4], comment = None\<rparr>] \<and>
            instr_ptr st' = 9"
    by code_simp
  then obtain st' where a: "while_statement (Suc 8) ?st = Inr st'"
    and l: "print_assembly st' =
              [\<lparr>pos = 1, opcode = ''PUSHI'', operands = [Num 1], comment = None\<rparr>,
               \<lparr>pos = 2, opcode = ''PUSHI'', operands = [Num 2], comment = None\<rparr>,
               \<lparr>pos = 3, opcode = ''CMP_LT'', operands = [], comment = Some ''compare <''\<rparr>,
               \<lparr>pos = 4, opcode = ''LABEL'', operands = [], comment = None\<rparr>,
               \<lparr>pos = 5, opcode = ''JMP0'', operands = [Num 9], comment = None\<rparr>,
               \<lparr>pos = 6, opcode = ''PUSHI'', operands = [Num 3], comment = None\<rparr>,
               \<lparr>pos = 7, opcode = ''SOUT'', operands = [], comment = None\<rparr>,
               \<lparr>pos = 8, opcode = ''JMP'', operands = [Num 4], comment = None\<rparr>]"
    and ip: "instr_ptr st' = 9"
    by (cases "while_statement (Suc 8) ?st") simp_all
  have ev: "case condition 8 (advance (advance ?st)) of
          Inl e \<Rightarrow> False
        | Inr st_c \<Rightarrow> instr_ptr st_c = 4"
    by code_simp
  have b: "1 \<le> instr_ptr ?st"
    by (simp add: reset_def)
  from while_condition_before_label [OF a b] obtain st_c st_b where
    c: "condition 8 (advance (advance ?st)) = Inr st_c"
    and sb: "statement_list 8 [''}''] (body_entry st_c) = Inr st_b"
    and ipb: "instr_ptr st' = instr_ptr st_b + 1"
    and rest: "\<forall>i. i \<noteq> instr_ptr st_c \<and> i \<noteq> instr_ptr st_b - 1 \<longrightarrow>
          instructions st' ! i = instructions st_b ! i"
    and below: "\<forall>i. i + 1 < instr_ptr st_c \<longrightarrow> instructions st' ! i = instructions st_c ! i"
    by blast
  from ev c have f: "instr_ptr st_c = 4"
    by simp
  from ipb ip have g: "instr_ptr st_b = 8"
    by simp
  from a l ip c f sb g rest below show ?thesis
    by blast
qed

section \<open>The instructions of an expression\<close>


definition emits :: "state \<Rightarrow> state \<Rightarrow> (string \<times> operand list) list \<Rightarrow> bool" where
  "emits st st' c \<longleftrightarrow>
     instr_ptr st' = instr_ptr st + length c \<and>
     length (instructions st') = length (instructions st) \<and>
     (\<forall>j<length c. instructions st' ! (instr_ptr st - 1 + j) =
         Some \<lparr>pos = instr_ptr st + j, opcode = fst (c ! j), operands = snd (c ! j),
               comment = None\<rparr>) \<and>
     (\<forall>i. i + 1 < instr_ptr st \<longrightarrow> instructions st' ! i = instructions st ! i)"

text \<open>
  The expression grammar in the words of the specification: the operands are the tokens
  at the even places, the operators those at the odd places; an integer literal pushes
  its value, an identifier pushes the load of its address, \<^verbatim>\<open>true\<close> and \<^verbatim>\<open>false\<close> push 1
  and 0; every operator recurses into a full expression for its right operand and its
  arithmetic instruction comes after both operand sequences.  So the code of
  \<open>t op rest\<close> is the push of \<open>t\<close>, the code of \<open>rest\<close>, then the instruction of \<open>op\<close>.
\<close>

definition push_of :: "(string \<times> int \<times> string) list \<Rightarrow> Token \<Rightarrow> string \<times> operand list" where
  "push_of tbl t =
     (if token_type t = Integer
      then (''PUSHI'', [Num (case py_int (lexeme t) of Inr v \<Rightarrow> v | Inl e \<Rightarrow> 0)])
      else if token_type t = Identifier
      then (''PUSHM'', [Num (case map_of tbl (lexeme t) of Some (addr, ty) \<Rightarrow> addr | None \<Rightarrow> 0)])
      else (''PUSHI'', [Num (if lexeme t = ''true'' then 1 else 0)]))"








lemma emits_refl: "emits st st []"
  by (simp add: emits_def)

lemma emits_code_cong:
  "code a = code a' \<Longrightarrow> code b = code b' \<Longrightarrow> emits a b c \<Longrightarrow> emits a' b' c"
  by (simp add: emits_def code_def)












lemma expression_operand_Inr:
  assumes a: "expression_operand st = Inr st'"
  obtains k and t :: Token where "current_token st = Some t"
    and "seq [match k None,
              emit (fst (push_of (symbol_table st) t)) (snd (push_of (symbol_table st) t)) None] st
         = Inr st'"
proof -
  from a obtain t where t: "current_token st = Some t"
    by (cases "current_token st") (simp_all add: expression_operand_def)
  consider (int) "token_type t = Integer"
    | (ident) "token_type t \<noteq> Integer" "token_type t = Identifier"
    | (kw) "token_type t \<noteq> Integer" "token_type t \<noteq> Identifier"
           "token_type t = Keyword \<and> lexeme t \<in> set [''true'', ''false'']"
    | (other) "token_type t \<noteq> Integer" "token_type t \<noteq> Identifier"
           "\<not> (token_type t = Keyword \<and> lexeme t \<in> set [''true'', ''false''])"
    by blast
  then show thesis
  proof cases
    case int
    with a t obtain v where v: "py_int (lexeme t) = Inr v"
      and s: "seq [match Integer None, emit ''PUSHI'' [Num v] None] st = Inr st'"
      by (cases "py_int (lexeme t)") (simp_all add: expression_operand_def)
    from int v have "push_of (symbol_table st) t = (''PUSHI'', [Num v])"
      by (simp add: push_of_def)
    with s t show ?thesis
      by (intro that [of t Integer]) simp_all
  next
    case ident
    with a t have d: "is_declared st (lexeme t)"
      by (auto simp: expression_operand_def error_def split: if_splits)
    with a t ident obtain addr ty where l: "lookup st (lexeme t) = Inr (addr, ty)"
      and s: "seq [match Identifier None, emit ''PUSHM'' [Num addr] None] st = Inr st'"
      by (cases "lookup st (lexeme t)") (auto simp: expression_operand_def)
    from l have "map_of (symbol_table st) (lexeme t) = Some (addr, ty)"
      by (auto simp: lookup_def split: option.splits)
    with ident have "push_of (symbol_table st) t = (''PUSHM'', [Num addr])"
      by (simp add: push_of_def)
    with s t show ?thesis
      by (intro that [of t Identifier]) simp_all
  next
    case kw
    with a t have s: "seq [match Keyword None,
                 emit ''PUSHI'' [Num (if lexeme t = ''true'' then 1 else 0)] None] st = Inr st'"
      by (simp add: expression_operand_def)
    from kw have "push_of (symbol_table st) t =
        (''PUSHI'', [Num (if lexeme t = ''true'' then 1 else 0)])"
      by (simp add: push_of_def)
    with s t show ?thesis
      by (intro that [of t Keyword]) simp_all
  next
    case other
    with a t show ?thesis
      by (auto simp: expression_operand_def error_def split: if_splits)
  qed
qed






section \<open>The bound on the depth of the calls is never reached\<close>

definition remaining :: "state \<Rightarrow> nat" where
  "remaining st = length (tokens st) - current_token_index st"

text \<open>
  \<open>safe_below N f\<close>: on a state with fewer than \<open>N\<close> tokens left, \<open>f\<close> does not stop for
  lack of depth; \<open>never_out f\<close>: it does so on no state.
\<close>

definition safe_below :: "nat \<Rightarrow> (state \<Rightarrow> error + state) \<Rightarrow> bool" where
  "safe_below N f \<longleftrightarrow> (\<forall>st. remaining st < N \<longrightarrow> f st \<noteq> Inl OutOfFuel)"

definition never_out :: "(state \<Rightarrow> error + state) \<Rightarrow> bool" where
  "never_out f \<longleftrightarrow> (\<forall>st. f st \<noteq> Inl OutOfFuel)"

lemma safe_belowI: "(\<And>st. remaining st < N \<Longrightarrow> f st \<noteq> Inl OutOfFuel) \<Longrightarrow> safe_below N f"
  by (simp add: safe_below_def)

lemma safe_belowD: "safe_below N f \<Longrightarrow> remaining st < N \<Longrightarrow> f st \<noteq> Inl OutOfFuel"
  by (simp add: safe_below_def)

lemma never_outI: "(\<And>st. f st \<noteq> Inl OutOfFuel) \<Longrightarrow> never_out f"
  by (simp add: never_out_def)

lemma never_outD: "never_out f \<Longrightarrow> f st \<noteq> Inl OutOfFuel"
  by (simp add: never_out_def)

lemma never_out_safe: "never_out f \<Longrightarrow> safe_below N f"
  by (simp add: never_out_def safe_below_def)

lemma safe_below_mono: "safe_below N f \<Longrightarrow> M \<le> N \<Longrightarrow> safe_below M f"
  by (auto simp: safe_below_def)

lemma bind_not_out:
  assumes "x \<noteq> Inl OutOfFuel" and "\<And>s. x = Inr s \<Longrightarrow> h s \<noteq> Inl OutOfFuel"
  shows "(case x of Inl e \<Rightarrow> Inl e | Inr s \<Rightarrow> h s) \<noteq> Inl OutOfFuel"
  using assms by (cases x) simp_all

lemma advances_remaining: "advances st st' \<Longrightarrow> remaining st' \<le> remaining st"
  by (auto simp: advances_def remaining_def)

lemma match_remaining:
  assumes "match k l st = Inr st'"
  shows "Suc (remaining st') = remaining st"
  using match_Inr_fields(1,2,7) [OF assms] by (simp add: remaining_def)

lemma never_out_match: "never_out (match k l)"
  by (rule never_outI) (auto simp: match_def error_def split: option.splits)

lemma never_out_emit: "never_out (emit op args cmt)"
  by (rule never_outI) (auto simp: emit_def py_setitem_def split: sum.splits if_splits)

lemma never_out_patch: "never_out (patch p e)"
  by (rule never_outI) (auto simp: patch_def py_setitem_def split: sum.splits if_splits)

lemma never_out_seq_Nil: "never_out (seq [])"
  by (rule never_outI) (simp add: seq.simps)

lemma never_out_seq_Cons: "never_out f \<Longrightarrow> never_out (seq fs) \<Longrightarrow> never_out (seq (f # fs))"
  by (rule never_outI) (auto simp: seq.simps never_out_def split: sum.splits)

lemmas never_out_intros =
  never_out_seq_Cons never_out_seq_Nil never_out_match never_out_emit never_out_patch

lemma safe_seq_Nil: "safe_below N (seq [])"
  by (rule never_out_safe [OF never_out_seq_Nil])

lemma safe_seq_Cons:
  assumes f: "safe_below N f" and a: "step_rel advances f" and fs: "safe_below N (seq fs)"
  shows "safe_below N (seq (f # fs))"
proof (rule safe_belowI)
  fix st assume r: "remaining st < N"
  have "(case f st of Inl e \<Rightarrow> Inl e | Inr s \<Rightarrow> seq fs s) \<noteq> Inl OutOfFuel"
  proof (rule bind_not_out)
    show "f st \<noteq> Inl OutOfFuel"
      by (rule safe_belowD [OF f r])
    fix s assume "f st = Inr s"
    from advances_remaining [OF step_relD [OF a this]] r have "remaining s < N"
      by simp
    then show "seq fs s \<noteq> Inl OutOfFuel"
      by (rule safe_belowD [OF fs])
  qed
  then show "seq (f # fs) st \<noteq> Inl OutOfFuel"
    by (simp add: seq.simps)
qed

lemma safe_seq_match:
  assumes fs: "safe_below N (seq fs)"
  shows "safe_below (Suc N) (seq (match k l # fs))"
proof (rule safe_belowI)
  fix st assume r: "remaining st < Suc N"
  have "(case match k l st of Inl e \<Rightarrow> Inl e | Inr s \<Rightarrow> seq fs s) \<noteq> Inl OutOfFuel"
  proof (rule bind_not_out)
    show "match k l st \<noteq> Inl OutOfFuel"
      by (rule never_outD [OF never_out_match])
    fix s assume "match k l st = Inr s"
    from match_remaining [OF this] r have "remaining s < N"
      by simp
    then show "seq fs s \<noteq> Inl OutOfFuel"
      by (rule safe_belowD [OF fs])
  qed
  then show "seq (match k l # fs) st \<noteq> Inl OutOfFuel"
    by (simp add: seq.simps)
qed

lemma advances_match: "step_rel advances (match k l)"
  by (rule closed_rel_match [OF closed_rel_advances])

lemma advances_emit: "step_rel advances (emit op args cmt)"
  by (rule closed_rel_emit [OF closed_rel_advances])

lemma advances_expression: "step_rel advances (expression n)"
  by (rule step_rel_expression [OF closed_rel_advances, THEN conjunct1])

lemma advances_binary_operators: "step_rel advances (binary_operators n)"
  by (rule step_rel_expression [OF closed_rel_advances, THEN conjunct2])

lemma advances_statement_list: "step_rel advances (statement_list n ts)"
  using step_rel_statements [OF closed_rel_advances patch_rel_advances, of n] by blast

lemma advances_statement: "step_rel advances (statement n)"
  using step_rel_statements [OF closed_rel_advances patch_rel_advances, of n] by blast

lemma never_out_expression_operand: "never_out expression_operand"
proof (rule never_outI)
  fix st
  have s: "seq [match k None, emit op args None] st \<noteq> Inl OutOfFuel" for k op args
    by (rule never_outD) (intro never_out_intros)
  show "expression_operand st \<noteq> Inl OutOfFuel"
    unfolding expression_operand_def
    by (auto simp: error_def py_int_def lookup_def s split: option.splits sum.splits prod.splits)
qed

lemma never_out_emit_arith: "never_out (emit_arith op)"
  by (rule never_outI) (simp add: emit_arith_def never_outD [OF never_out_emit])

lemma expression_operand_remaining:
  assumes "expression_operand st = Inr st'"
  shows "Suc (remaining st') = remaining st"
proof -
  from assms obtain k and t :: Token where
    "seq [match k None,
          emit (fst (push_of (symbol_table st) t)) (snd (push_of (symbol_table st) t)) None] st
       = Inr st'"
    by (rule expression_operand_Inr)
  then obtain s where m: "match k None st = Inr s"
    and e: "emit (fst (push_of (symbol_table st) t)) (snd (push_of (symbol_table st) t)) None s
         = Inr st'"
    by (auto simp: seq_Cons_Inr seq_Nil_Inr)
  from emit_Inr(1,2) [OF e] have "remaining st' = remaining s"
    by (simp add: remaining_def)
  with match_remaining [OF m] show ?thesis by simp
qed

lemma expression_remaining:
  assumes "expression n st = Inr st'"
  shows "remaining st' < remaining st"
proof (cases n)
  case 0
  with assms show ?thesis by simp
next
  case (Suc m)
  with assms obtain s where o: "expression_operand st = Inr s"
    and b: "binary_operators m s = Inr st'"
    by (auto simp: bind_Inr_iff)
  from advances_remaining [OF step_relD [OF advances_binary_operators b]]
    expression_operand_remaining [OF o]
  show ?thesis by simp
qed

lemma safe_expression:
  "safe_below n (expression n) \<and> safe_below n (binary_operators n)"
proof (induction n)
  case 0
  show ?case by (simp add: safe_below_def)
next
  case (Suc n)
  then have ihe: "safe_below n (expression n)" and ihb: "safe_below n (binary_operators n)"
    by simp_all
  have e: "safe_below (Suc n) (expression (Suc n))"
  proof (rule safe_belowI)
    fix st assume r: "remaining st < Suc n"
    have "(case expression_operand st of Inl e \<Rightarrow> Inl e | Inr s \<Rightarrow> binary_operators n s)
        \<noteq> Inl OutOfFuel"
    proof (rule bind_not_out)
      show "expression_operand st \<noteq> Inl OutOfFuel"
        by (rule never_outD [OF never_out_expression_operand])
      fix s assume "expression_operand st = Inr s"
      from expression_operand_remaining [OF this] r have "remaining s < n" by simp
      then show "binary_operators n s \<noteq> Inl OutOfFuel"
        by (rule safe_belowD [OF ihb])
    qed
    then show "expression (Suc n) st \<noteq> Inl OutOfFuel" by simp
  qed
  have b: "safe_below (Suc n) (binary_operators (Suc n))"
  proof (rule safe_belowI)
    fix st assume r: "remaining st < Suc n"
    let ?f = "seq [match Operator None, expression n,
                   emit_arith (lexeme (tokens st ! current_token_index st))]"
    have "(case ?f st of Inl e \<Rightarrow> Inl e | Inr s \<Rightarrow> binary_operators n s) \<noteq> Inl OutOfFuel"
    proof (rule bind_not_out)
      have "safe_below n (seq [expression n,
                   emit_arith (lexeme (tokens st ! current_token_index st))])"
        by (intro safe_seq_Cons safe_seq_Nil ihe advances_expression
              never_out_safe [OF never_out_emit_arith]
              step_rel_emit_arith [OF closed_rel_advances])
      then have "safe_below (Suc n) ?f"
        by (rule safe_seq_match)
      from safe_belowD [OF this r] show "?f st \<noteq> Inl OutOfFuel" .
      fix s assume "?f st = Inr s"
      then obtain s1 s2 where m: "match Operator None st = Inr s1"
        and x: "expression n s1 = Inr s2"
        and ea: "emit_arith (lexeme (tokens st ! current_token_index st)) s2 = Inr s"
        by (auto simp: seq_Cons_Inr seq_Nil_Inr)
      from advances_remaining [OF step_relD [OF step_rel_emit_arith [OF closed_rel_advances] ea]]
        expression_remaining [OF x] match_remaining [OF m] r
      have "remaining s < n" by simp
      then show "binary_operators n s \<noteq> Inl OutOfFuel"
        by (rule safe_belowD [OF ihb])
    qed
    then show "binary_operators (Suc n) st \<noteq> Inl OutOfFuel" by simp
  qed
  from e b show ?case ..
qed

lemma safe_expression_n: "safe_below n (expression n)"
  by (rule safe_expression [THEN conjunct1])

lemma safe_condition: "safe_below n (condition n)"
proof (rule safe_belowI)
  fix st assume r: "remaining st < n"
  have "(case expression n st of Inl e \<Rightarrow> Inl e
         | Inr st1 \<Rightarrow>
          (case current_token st1 of
             None \<Rightarrow> Inl AttributeError
           | Some t \<Rightarrow>
               (case seq [match Operator None, expression n] st1 of
                  Inl e \<Rightarrow> Inl e
                | Inr st2 \<Rightarrow>
                    (case map_of cmp_map (lexeme t) of
                       None \<Rightarrow> Inl (KeyError (lexeme t))
                     | Some c \<Rightarrow> emit c [] (Some (''compare '' @ lexeme t)) st2)))) \<noteq> Inl OutOfFuel"
  proof (rule bind_not_out)
    show "expression n st \<noteq> Inl OutOfFuel"
      by (rule safe_belowD [OF safe_expression_n r])
    fix s assume "expression n st = Inr s"
    from advances_remaining [OF step_relD [OF advances_expression this]] r
    have r1: "remaining s < n" by simp
    have "safe_below n (seq [match Operator None, expression n])"
      by (intro safe_seq_Cons safe_seq_Nil never_out_safe [OF never_out_match] advances_match
            safe_expression_n advances_expression)
    from safe_belowD [OF this r1]
    have 1: "seq [match Operator None, expression n] s \<noteq> Inl OutOfFuel" .
    show "(case current_token s of
             None \<Rightarrow> Inl AttributeError
           | Some t \<Rightarrow>
               (case seq [match Operator None, expression n] s of
                  Inl e \<Rightarrow> Inl e
                | Inr st2 \<Rightarrow>
                    (case map_of cmp_map (lexeme t) of
                       None \<Rightarrow> Inl (KeyError (lexeme t))
                     | Some c \<Rightarrow> emit c [] (Some (''compare '' @ lexeme t)) st2))) \<noteq> Inl OutOfFuel"
      using 1 never_outD [OF never_out_emit]
      by (auto split: option.splits sum.splits)
  qed
  then show "condition n st \<noteq> Inl OutOfFuel"
    by (simp add: condition_def)
qed

lemma safe_assignment: "safe_below n (assignment n)"
proof (rule safe_belowI)
  fix st assume r: "remaining st < n"
  have "safe_below n (seq [match Identifier None, match Operator (Some ''=''), expression n,
               match Separator (Some '';''), emit ''STO'' [Name x] (Some (x @ '' = <expr>''))])"
    for x
    by (intro safe_seq_Cons safe_seq_Nil never_out_safe [OF never_out_match] advances_match
          safe_expression_n advances_expression never_out_safe [OF never_out_emit] advances_emit)
  from safe_belowD [OF this r] show "assignment n st \<noteq> Inl OutOfFuel"
    by (simp add: assignment_def split: option.splits)
qed

lemma safe_print_statement: "safe_below n (print_statement_prod n)"
  unfolding print_statement_prod_def
  by (intro safe_seq_Cons safe_seq_Nil never_out_safe [OF never_out_match] advances_match
        safe_expression_n advances_expression never_out_safe [OF never_out_emit] advances_emit)

lemma safe_return_statement: "safe_below n (return_statement n)"
proof (rule safe_belowI)
  fix st assume r: "remaining st < n"
  have "(case match Keyword (Some ''return'') st of
        Inl e \<Rightarrow> Inl e
      | Inr st1 \<Rightarrow>
          (case current_token st1 of
             None \<Rightarrow> match Separator (Some '';'') st1
           | Some t \<Rightarrow>
               if lexeme t \<noteq> '';''
               then seq [expression n, match Separator (Some '';'')] st1
               else match Separator (Some '';'') st1)) \<noteq> Inl OutOfFuel"
  proof (rule bind_not_out)
    show "match Keyword (Some ''return'') st \<noteq> Inl OutOfFuel"
      by (rule never_outD [OF never_out_match])
    fix s assume "match Keyword (Some ''return'') st = Inr s"
    from match_remaining [OF this] r have r1: "remaining s < n" by simp
    have "safe_below n (seq [expression n, match Separator (Some '';'')])"
      by (intro safe_seq_Cons safe_seq_Nil never_out_safe [OF never_out_match] advances_match
            safe_expression_n advances_expression)
    from safe_belowD [OF this r1] never_outD [OF never_out_match]
    show "(case current_token s of
             None \<Rightarrow> match Separator (Some '';'') s
           | Some t \<Rightarrow>
               if lexeme t \<noteq> '';''
               then seq [expression n, match Separator (Some '';'')] s
               else match Separator (Some '';'') s) \<noteq> Inl OutOfFuel"
      by (auto split: option.splits)
  qed
  then show "return_statement n st \<noteq> Inl OutOfFuel"
    by (simp add: return_statement_def)
qed

lemma never_out_scan_statement: "never_out scan_statement"
proof (rule never_outI)
  fix st
  have 1: "seq [match Keyword (Some ''scan''), match Separator (Some ''('')] s \<noteq> Inl OutOfFuel"
    for s by (rule never_outD) (intro never_out_intros)
  have 2: "seq [match Identifier None, match Separator (Some '')''),
                match Separator (Some '';'')] s \<noteq> Inl OutOfFuel"
    for s by (rule never_outD) (intro never_out_intros)
  have 3: "seq [emit ''SIN'' [] None, emit ''POPM'' [Num addr] None] s \<noteq> Inl OutOfFuel"
    for s addr by (rule never_outD) (intro never_out_intros)
  show "scan_statement st \<noteq> Inl OutOfFuel"
    unfolding scan_statement_def using 1 2 3
    by (auto simp: lookup_def split: option.splits sum.splits prod.splits)
qed

text \<open>Every statement that succeeds has consumed a token.\<close>

lemma seq_match_remaining:
  assumes s: "seq (match k l # fs) st = Inr st'" and a: "step_rel advances (seq fs)"
  shows "remaining st' < remaining st"
proof -
  from s obtain s1 where m: "match k l st = Inr s1" and r: "seq fs s1 = Inr st'"
    by (auto simp: seq_Cons_Inr)
  from advances_remaining [OF step_relD [OF a r]] match_remaining [OF m]
  show ?thesis by simp
qed

lemma advances_seq:
  "(\<And>f. f \<in> set fs \<Longrightarrow> step_rel advances f) \<Longrightarrow> step_rel advances (seq fs)"
proof (induction fs)
  case Nil
  show ?case by (rule step_rel_seq_Nil [OF closed_rel_advances])
next
  case (Cons f fs)
  show ?case
    by (rule step_rel_seq_Cons [OF closed_rel_advances]) (simp_all add: Cons)
qed

lemma advances_condition: "step_rel advances (condition n)"
  by (rule step_rel_condition [OF closed_rel_advances])

lemma statement_remaining:
  assumes a: "statement n st = Inr st'"
  shows "remaining st' < remaining st"
proof (cases n)
  case 0
  with a show ?thesis by simp
next
  case (Suc m)
  with a have "compound_statement m st = Inr st' \<or> if_statement m st = Inr st' \<or>
       while_statement m st = Inr st' \<or> return_statement m st = Inr st' \<or>
       print_statement_prod m st = Inr st' \<or> scan_statement st = Inr st' \<or>
       assignment m st = Inr st'"
    by (cases "current_token st") (simp_all add: error_def split: if_splits)
  moreover have "remaining st' < remaining st" if c: "compound_statement m st = Inr st'"
  proof (cases m)
    case 0
    with c show ?thesis by simp
  next
    case (Suc j)
    with c have "seq [match Separator (Some ''{''), statement_list j [''}''],
          match Separator (Some ''}'')] st = Inr st'"
      by simp
    then show ?thesis
      by (rule seq_match_remaining)
         (intro advances_seq, auto intro: advances_statement_list advances_match)
  qed
  moreover have "remaining st' < remaining st" if c: "if_statement m st = Inr st'"
  proof (cases m)
    case 0
    with c show ?thesis by simp
  next
    case (Suc j)
    from c [unfolded Suc] obtain st1 where
      s1: "seq [match Keyword (Some ''if''), match Separator (Some ''(''), condition j,
          match Separator (Some '')''), statement j] st = Inr st1"
      and s2: "(\<exists>t. current_token st1 = Some t \<and> lexeme t = ''else'') \<and>
         seq [match Keyword (Some ''else''), statement j,
              match Keyword (Some ''endif'')] st1 = Inr st' \<or>
         match Keyword (Some ''endif'') st1 = Inr st'"
      by (rule if_statement_Inr)
    have "remaining st1 < remaining st"
      using s1 by (rule seq_match_remaining)
         (intro advances_seq, auto intro: advances_statement advances_match advances_condition)
    moreover have "step_rel advances (seq [match Keyword (Some ''else''), statement j,
              match Keyword (Some ''endif'')])"
      by (intro advances_seq) (auto intro: advances_statement advances_match)
    with s2 have "advances st1 st'"
      using step_relD [OF advances_match, of Keyword "Some ''endif''" st1 st']
      by (auto dest: step_relD)
    from advances_remaining [OF this] have "remaining st' \<le> remaining st1" .
    ultimately show ?thesis by simp
  qed
  moreover have "remaining st' < remaining st" if c: "while_statement m st = Inr st'"
  proof -
    have "step_rel advances (while_statement m)"
      using step_rel_statements [OF closed_rel_advances patch_rel_advances, of m] by blast
    from step_relD [OF this c] have ad: "advances st st'" .
    show ?thesis
    proof (cases m)
      case 0
      with c show ?thesis by simp
    next
      case (Suc j)
      from c [unfolded Suc] obtain st1 st2 st3 st4 where
        s1: "seq [match Keyword (Some ''while''), match Separator (Some ''(''), condition j,
              match Separator (Some '')'')] st = Inr st1"
        and s2: "emit ''LABEL'' [] None st1 = Inr st2"
        and s3: "seq [emit ''JMP0'' [Num 0] None, match Separator (Some ''{''),
              statement_list j [''}''], match Separator (Some ''}''),
              emit ''JMP'' [Num (int (instr_ptr st1))] None] st2 = Inr st3"
        and s4: "patch (instr_ptr st2) (instr_ptr st3) st3 = Inr st4"
        and s5: "match Keyword (Some ''endwhile'') st4 = Inr st'"
        by (rule while_statement_Inr)
      have 1: "remaining st1 < remaining st"
        using s1 by (rule seq_match_remaining)
           (intro advances_seq, auto intro: advances_match advances_condition)
      from emit_Inr(1,2) [OF s2] have 2: "remaining st2 = remaining st1"
        by (simp add: remaining_def)
      have "step_rel advances (seq [emit ''JMP0'' [Num 0] None, match Separator (Some ''{''),
              statement_list j [''}''], match Separator (Some ''}''),
              emit ''JMP'' [Num (int (instr_ptr st1))] None])"
        by (intro advances_seq)
           (auto intro: advances_match advances_emit advances_statement_list)
      from advances_remaining [OF step_relD [OF this s3]]
      have 3: "remaining st3 \<le> remaining st2" .
      from patch_Inr(1,2) [OF s4] have 4: "remaining st4 = remaining st3"
        by (simp add: remaining_def)
      from match_remaining [OF s5] 1 2 3 4 show ?thesis by simp
    qed
  qed
  moreover have "remaining st' < remaining st" if c: "return_statement m st = Inr st'"
  proof -
    from c obtain st1 where m1: "match Keyword (Some ''return'') st = Inr st1"
      and b: "seq [expression m, match Separator (Some '';'')] st1 = Inr st' \<or>
         match Separator (Some '';'') st1 = Inr st'"
      by (auto simp: return_statement_def bind_Inr_iff split: option.splits if_splits)
    have "step_rel advances (seq [expression m, match Separator (Some '';'')])"
      by (intro advances_seq) (auto intro: advances_match advances_expression)
    with b have "advances st1 st'"
      using step_relD [OF advances_match, of Separator "Some '';''" st1 st']
      by (auto dest: step_relD)
    from advances_remaining [OF this] match_remaining [OF m1] show ?thesis by simp
  qed
  moreover have "remaining st' < remaining st" if c: "print_statement_prod m st = Inr st'"
    using c unfolding print_statement_prod_def
    by (rule seq_match_remaining)
       (intro advances_seq, auto intro: advances_match advances_expression advances_emit)
  moreover have "remaining st' < remaining st" if c: "scan_statement st = Inr st'"
  proof -
    from c obtain st1 where
      1: "seq [match Keyword (Some ''scan''), match Separator (Some ''('')] st = Inr st1"
      by (rule scan_statement_Inr)
    have "remaining st1 < remaining st"
      using 1 by (rule seq_match_remaining) (intro advances_seq, auto intro: advances_match)
    moreover have "step_rel advances scan_statement"
      by (rule step_rel_scan_statement [OF closed_rel_advances])
    from step_relD [OF this c] have ad: "advances st st'" .
    from c obtain sa sb sc addr where
      a1: "seq [match Keyword (Some ''scan''), match Separator (Some ''('')] st = Inr sa"
      and a2: "seq [match Identifier None, match Separator (Some '')''),
              match Separator (Some '';'')] sa = Inr sb"
      and a3: "seq [emit ''SIN'' [] None, emit ''POPM'' [Num addr] None] sb = Inr st'"
      by (rule scan_statement_Inr)
    have "remaining sa < remaining st"
      using a1 by (rule seq_match_remaining) (intro advances_seq, auto intro: advances_match)
    moreover have "remaining sb < remaining sa"
      using a2 by (rule seq_match_remaining) (intro advances_seq, auto intro: advances_match)
    moreover have "step_rel advances (seq [emit ''SIN'' [] None, emit ''POPM'' [Num addr] None])"
      by (intro advances_seq) (auto intro: advances_emit)
    from advances_remaining [OF step_relD [OF this a3]] have "remaining st' \<le> remaining sb" .
    ultimately show ?thesis by simp
  qed
  moreover have "remaining st' < remaining st" if c: "assignment m st = Inr st'"
  proof -
    from c obtain t :: Token where
      "seq [match Identifier None, match Operator (Some ''=''), expression m,
               match Separator (Some '';''),
               emit ''STO'' [Name (lexeme t)] (Some (lexeme t @ '' = <expr>''))] st = Inr st'"
      unfolding assignment_def option_Inr_iff by blast
    then show ?thesis
      by (rule seq_match_remaining)
         (intro advances_seq, auto intro: advances_match advances_expression advances_emit)
  qed
  ultimately show ?thesis by blast
qed

lemma safe_statements:
  "(\<forall>ts. safe_below (n div 3) (statement_list n ts)) \<and>
   safe_below ((n + 1) div 3) (statement n) \<and>
   safe_below ((n + 2) div 3) (compound_statement n) \<and>
   safe_below ((n + 2) div 3) (while_statement n) \<and>
   safe_below ((n + 2) div 3) (if_statement n)"
proof (induction n)
  case 0
  show ?case by (simp add: safe_below_def)
next
  case (Suc n)
  then have sl: "\<And>ts. safe_below (n div 3) (statement_list n ts)"
    and s: "safe_below ((n + 1) div 3) (statement n)"
    and cs: "safe_below ((n + 2) div 3) (compound_statement n)"
    and ws: "safe_below ((n + 2) div 3) (while_statement n)"
    and ifs: "safe_below ((n + 2) div 3) (if_statement n)"
    by simp_all
  have s': "safe_below (n div 3) (statement n)"
    by (rule safe_below_mono [OF s]) simp
  have co: "safe_below (n div 3) (condition n)"
    by (rule safe_below_mono [OF safe_condition]) simp
  note m = never_out_safe [OF never_out_match]
  note e = never_out_safe [OF never_out_emit]
  have 1: "safe_below (Suc n div 3) (statement_list (Suc n) ts)" for ts
  proof (rule safe_belowI)
    fix st assume r: "remaining st < Suc n div 3"
    have "(case statement n st of Inl e \<Rightarrow> Inl e | Inr st' \<Rightarrow> statement_list n ts st')
        \<noteq> Inl OutOfFuel"
    proof (rule bind_not_out)
      from r have "remaining st < (n + 1) div 3" by simp
      then show "statement n st \<noteq> Inl OutOfFuel"
        by (rule safe_belowD [OF s])
      fix st1 assume "statement n st = Inr st1"
      from statement_remaining [OF this] r have "remaining st1 < n div 3"
        by arith
      then show "statement_list n ts st1 \<noteq> Inl OutOfFuel"
        by (rule safe_belowD [OF sl])
    qed
    then show "statement_list (Suc n) ts st \<noteq> Inl OutOfFuel"
      by (simp split: option.splits)
  qed
  have 2: "safe_below ((Suc n + 1) div 3) (statement (Suc n))"
  proof (rule safe_belowI)
    fix st assume r: "remaining st < (Suc n + 1) div 3"
    then have r2: "remaining st < (n + 2) div 3" by simp
    then have rn: "remaining st < n" by arith
    from safe_belowD [OF cs r2] safe_belowD [OF ifs r2] safe_belowD [OF ws r2]
      safe_belowD [OF safe_return_statement rn] safe_belowD [OF safe_print_statement rn]
      safe_belowD [OF safe_assignment rn] never_outD [OF never_out_scan_statement]
    show "statement (Suc n) st \<noteq> Inl OutOfFuel"
      by (simp add: error_def split: option.splits)
  qed
  have 3: "safe_below ((Suc n + 2) div 3) (compound_statement (Suc n))"
  proof -
    have "safe_below (n div 3) (seq [statement_list n [''}''], match Separator (Some ''}'')])"
      by (intro safe_seq_Cons safe_seq_Nil sl advances_statement_list m advances_match)
    then have "safe_below (Suc (n div 3)) (seq [match Separator (Some ''{''),
        statement_list n [''}''], match Separator (Some ''}'')])"
      by (rule safe_seq_match)
    then show ?thesis
      by (simp add: safe_below_def)
  qed
  have 4: "safe_below ((Suc n + 2) div 3) (while_statement (Suc n))"
  proof (rule safe_belowI)
    fix st assume "remaining st < (Suc n + 2) div 3"
    then have r: "remaining st < Suc (n div 3)" by simp
    let ?f1 = "seq [match Keyword (Some ''while''), match Separator (Some ''(''), condition n,
                match Separator (Some '')'')]"
    have "(case ?f1 st of
        Inl e \<Rightarrow> Inl e
      | Inr st1 \<Rightarrow>
          (case emit ''LABEL'' [] None st1 of
             Inl e \<Rightarrow> Inl e
           | Inr st2 \<Rightarrow>
               (case seq [emit ''JMP0'' [Num 0] None, match Separator (Some ''{''),
                          statement_list n [''}''], match Separator (Some ''}''),
                          emit ''JMP'' [Num (int (instr_ptr st1))] None] st2 of
                  Inl e \<Rightarrow> Inl e
                | Inr st3 \<Rightarrow>
                    seq [patch (instr_ptr st2) (instr_ptr st3),
                         match Keyword (Some ''endwhile'')] st3))) \<noteq> Inl OutOfFuel"
    proof (rule bind_not_out)
      have "safe_below (n div 3) (seq [match Separator (Some ''(''), condition n,
                match Separator (Some '')'')])"
        by (intro safe_seq_Cons safe_seq_Nil m advances_match co advances_condition)
      then have "safe_below (Suc (n div 3)) ?f1"
        by (rule safe_seq_match)
      from safe_belowD [OF this r] show "?f1 st \<noteq> Inl OutOfFuel" .
      fix st1 assume f1: "?f1 st = Inr st1"
      have "remaining st1 < remaining st"
        using f1 by (rule seq_match_remaining)
          (intro advances_seq, auto intro: advances_match advances_condition)
      with r have r1: "remaining st1 < n div 3" by simp
      show "(case emit ''LABEL'' [] None st1 of
             Inl e \<Rightarrow> Inl e
           | Inr st2 \<Rightarrow>
               (case seq [emit ''JMP0'' [Num 0] None, match Separator (Some ''{''),
                          statement_list n [''}''], match Separator (Some ''}''),
                          emit ''JMP'' [Num (int (instr_ptr st1))] None] st2 of
                  Inl e \<Rightarrow> Inl e
                | Inr st3 \<Rightarrow>
                    seq [patch (instr_ptr st2) (instr_ptr st3),
                         match Keyword (Some ''endwhile'')] st3)) \<noteq> Inl OutOfFuel"
      proof (rule bind_not_out)
        show "emit ''LABEL'' [] None st1 \<noteq> Inl OutOfFuel"
          by (rule never_outD [OF never_out_emit])
        fix st2 assume "emit ''LABEL'' [] None st1 = Inr st2"
        from emit_Inr(1,2) [OF this] r1 have r2: "remaining st2 < n div 3"
          by (simp add: remaining_def)
        let ?f3 = "seq [emit ''JMP0'' [Num 0] None, match Separator (Some ''{''),
                          statement_list n [''}''], match Separator (Some ''}''),
                          emit ''JMP'' [Num (int (instr_ptr st1))] None]"
        show "(case ?f3 st2 of
                  Inl e \<Rightarrow> Inl e
                | Inr st3 \<Rightarrow>
                    seq [patch (instr_ptr st2) (instr_ptr st3),
                         match Keyword (Some ''endwhile'')] st3) \<noteq> Inl OutOfFuel"
        proof (rule bind_not_out)
          have "safe_below (n div 3) ?f3"
            by (intro safe_seq_Cons safe_seq_Nil m advances_match e advances_emit sl
                  advances_statement_list)
          from safe_belowD [OF this r2] show "?f3 st2 \<noteq> Inl OutOfFuel" .
          fix st3
          show "seq [patch (instr_ptr st2) (instr_ptr st3),
                     match Keyword (Some ''endwhile'')] st3 \<noteq> Inl OutOfFuel"
            by (rule never_outD) (intro never_out_intros)
        qed
      qed
    qed
    then show "while_statement (Suc n) st \<noteq> Inl OutOfFuel"
      by simp
  qed
  have 5: "safe_below ((Suc n + 2) div 3) (if_statement (Suc n))"
  proof (rule safe_belowI)
    fix st assume "remaining st < (Suc n + 2) div 3"
    then have r: "remaining st < Suc (n div 3)" by simp
    let ?f1 = "seq [match Keyword (Some ''if''), match Separator (Some ''(''), condition n,
                match Separator (Some '')''), statement n]"
    have "(case ?f1 st of
        Inl e \<Rightarrow> Inl e
      | Inr st1 \<Rightarrow>
          (case current_token st1 of
             None \<Rightarrow> match Keyword (Some ''endif'') st1
           | Some t \<Rightarrow>
               if lexeme t = ''else''
               then seq [match Keyword (Some ''else''), statement n,
                         match Keyword (Some ''endif'')] st1
               else match Keyword (Some ''endif'') st1)) \<noteq> Inl OutOfFuel"
    proof (rule bind_not_out)
      have "safe_below (n div 3) (seq [match Separator (Some ''(''), condition n,
                match Separator (Some '')''), statement n])"
        by (intro safe_seq_Cons safe_seq_Nil m advances_match co advances_condition s'
              advances_statement)
      then have "safe_below (Suc (n div 3)) ?f1"
        by (rule safe_seq_match)
      from safe_belowD [OF this r] show "?f1 st \<noteq> Inl OutOfFuel" .
      fix st1 assume f1: "?f1 st = Inr st1"
      have "remaining st1 < remaining st"
        using f1 by (rule seq_match_remaining)
          (intro advances_seq, auto intro: advances_match advances_condition advances_statement)
      with r have r1: "remaining st1 < n div 3" by simp
      have "safe_below (n div 3) (seq [match Keyword (Some ''else''), statement n,
                         match Keyword (Some ''endif'')])"
        by (intro safe_seq_Cons safe_seq_Nil m advances_match s' advances_statement)
      from safe_belowD [OF this r1] never_outD [OF never_out_match]
      show "(case current_token st1 of
             None \<Rightarrow> match Keyword (Some ''endif'') st1
           | Some t \<Rightarrow>
               if lexeme t = ''else''
               then seq [match Keyword (Some ''else''), statement n,
                         match Keyword (Some ''endif'')] st1
               else match Keyword (Some ''endif'') st1) \<noteq> Inl OutOfFuel"
        by (simp split: option.splits)
    qed
    then show "if_statement (Suc n) st \<noteq> Inl OutOfFuel"
      by simp
  qed
  from 1 2 3 4 5 show ?case by blast
qed

lemma never_out_ids_action: "never_out (ids_action vt name)"
  by (rule never_outI)
     (auto simp: ids_action_def insert_identifier_def error_def split: option.splits)

lemma never_out_qualifier: "never_out qualifier"
  by (rule never_outI)
     (auto simp: qualifier_def error_def never_outD [OF never_out_match] split: option.splits)

lemma never_out_ids: "never_out (ids vt)"
proof (rule never_outI)
  fix st
  show "ids vt st \<noteq> Inl OutOfFuel"
  proof (induction vt st rule: ids.induct)
    case (1 var_type st)
    have s: "seq [ids_action var_type x, match Identifier None] st \<noteq> Inl OutOfFuel" for x
      by (rule never_outD) (intro never_out_intros never_out_ids_action)
    show ?case
    proof (cases "current_token st")
      case None
      then show ?thesis
        by (subst ids.simps) (simp add: error_def)
    next
      case (Some t)
      show ?thesis
      proof (cases "token_type t = Identifier")
        case False
        with Some show ?thesis
          by (subst ids.simps) (simp add: error_def)
      next
        case True
        have "(case seq [ids_action var_type (lexeme t), match Identifier None] st of
                  Inl e \<Rightarrow> Inl e
                | Inr st' \<Rightarrow>
                    if at_token Separator ['',''] st'
                    then (case match Separator (Some '','') st' of
                            Inl e \<Rightarrow> Inl e
                          | Inr st'' \<Rightarrow> ids var_type st'')
                    else Inr st') \<noteq> Inl OutOfFuel"
        proof (rule bind_not_out [OF s])
          fix s1 assume s1: "seq [ids_action var_type (lexeme t), match Identifier None] st = Inr s1"
          show "(if at_token Separator ['',''] s1
                    then (case match Separator (Some '','') s1 of
                            Inl e \<Rightarrow> Inl e
                          | Inr st'' \<Rightarrow> ids var_type st'')
                    else Inr s1) \<noteq> Inl OutOfFuel"
          proof (cases "at_token Separator ['',''] s1")
            case False
            then show ?thesis by simp
          next
            case at: True
            have "(case match Separator (Some '','') s1 of
                            Inl e \<Rightarrow> Inl e
                          | Inr st'' \<Rightarrow> ids var_type st'') \<noteq> Inl OutOfFuel"
              by (rule bind_not_out [OF never_outD [OF never_out_match]])
                 (rule "1.IH" [OF Some True s1 at])
            with at show ?thesis by simp
          qed
        qed
        with Some True show ?thesis
          by (subst ids.simps) simp
      qed
    qed
  qed
qed

lemma never_out_declaration: "never_out declaration_prod"
proof (rule never_outI)
  fix st
  have "seq [qualifier, ids vt] st \<noteq> Inl OutOfFuel" for vt
    by (rule never_outD) (intro never_out_intros never_out_qualifier never_out_ids)
  then show "declaration_prod st \<noteq> Inl OutOfFuel"
    by (simp add: declaration_prod_def split: option.splits)
qed

lemma never_out_declaration_loop: "never_out declaration_loop"
proof (rule never_outI)
  fix st
  show "declaration_loop st \<noteq> Inl OutOfFuel"
  proof (induction st rule: declaration_loop.induct)
    case (1 st)
    have s: "seq [declaration_prod, match Separator (Some '';'')] st \<noteq> Inl OutOfFuel"
      by (rule never_outD) (intro never_out_intros never_out_declaration)
    show ?case
    proof (cases "at_token Keyword [''integer'', ''boolean'', ''real''] st")
      case False
      then show ?thesis
        by (subst declaration_loop.simps) simp
    next
      case True
      have "(case seq [declaration_prod, match Separator (Some '';'')] st of
              Inl e \<Rightarrow> Inl e
            | Inr st' \<Rightarrow> declaration_loop st') \<noteq> Inl OutOfFuel"
        by (rule bind_not_out [OF s]) (rule "1.IH" [OF True])
      with True show ?thesis
        by (subst declaration_loop.simps) simp
    qed
  qed
qed

lemma never_out_delimiter_loop: "never_out delimiter_loop"
proof (rule never_outI)
  fix st
  show "delimiter_loop st \<noteq> Inl OutOfFuel"
  proof (induction st rule: delimiter_loop.induct)
    case (1 st)
    show ?case
    proof (cases "at_token Separator [''$$''] st")
      case False
      then show ?thesis
        by (subst delimiter_loop.simps) simp
    next
      case True
      have "(case match Separator (Some ''$$'') st of
              Inl e \<Rightarrow> Inl e
            | Inr st' \<Rightarrow> delimiter_loop st') \<noteq> Inl OutOfFuel"
        by (rule bind_not_out [OF never_outD [OF never_out_match]]) (rule "1.IH" [OF True])
      with True show ?thesis
        by (subst delimiter_loop.simps) simp
    qed
  qed
qed

lemma never_out_opt_declaration_list: "never_out opt_declaration_list"
proof (rule never_outI)
  fix st
  have "never_out declaration_list"
    unfolding declaration_list_def
    by (intro never_out_intros never_out_declaration never_out_declaration_loop)
  from never_outD [OF this] show "opt_declaration_list st \<noteq> Inl OutOfFuel"
    by (simp add: opt_declaration_list_def)
qed

lemma never_out_optional_delimiter: "never_out optional_delimiter"
  by (rule never_outI) (simp add: optional_delimiter_def never_outD [OF never_out_match])

lemma safe_parse_rat25s: "safe_below (Suc (n div 3)) (parse_rat25s n)"
proof -
  have "safe_below (n div 3) (seq [delimiter_loop, opt_declaration_list,
          optional_delimiter, statement_list n [''$$''], match Separator (Some ''$$'')])"
    by (intro safe_seq_Cons safe_seq_Nil
          never_out_safe [OF never_out_delimiter_loop]
          never_out_safe [OF never_out_opt_declaration_list]
          never_out_safe [OF never_out_optional_delimiter]
          never_out_safe [OF never_out_match]
          step_rel_delimiter_loop [OF closed_rel_advances]
          step_rel_opt_declaration_list [OF closed_rel_advances decl_rel_advances]
          step_rel_optional_delimiter [OF closed_rel_advances]
          advances_match advances_statement_list
          safe_statements [of n, THEN conjunct1, rule_format])
  then show ?thesis
    unfolding parse_rat25s_def by (rule safe_seq_match)
qed

lemma compile_not_out: "compile source_code \<noteq> Inl OutOfFuel"
proof -
  let ?toks = "lexer source_code"
  have "remaining (reset ?toks) < Suc (depth_bound ?toks div 3)"
    by (simp add: remaining_def reset_def depth_bound_def)
  from safe_belowD [OF safe_parse_rat25s this] show ?thesis
    by (simp add: compile_def run_def)
qed

text \<open>
  An error ends every function that called the one that raised it, so a run that does not
  end with \<open>OutOfFuel\<close> has never met the bound, and its result is that of the program.
  Any bound of at least three times the number of tokens is enough.
\<close>

lemma run_not_out:
  assumes "3 * length (lexer source_code) \<le> n"
  shows "run n source_code \<noteq> Inl OutOfFuel"
proof -
  from assms have "remaining (reset (lexer source_code)) < Suc (n div 3)"
    by (simp add: remaining_def reset_def)
  from safe_belowD [OF safe_parse_rat25s this] show ?thesis
    by (simp add: run_def)
qed

section \<open>The end of a run\<close>

lemma seq_append_Inr:
  "seq (fs @ gs) st = Inr st' \<longleftrightarrow> (\<exists>s. seq fs st = Inr s \<and> seq gs s = Inr st')"
proof (induction fs arbitrary: st)
  case Nil
  show ?case by (simp add: seq_Nil_Inr)
next
  case (Cons f fs)
  show ?case
    by (auto simp: seq_Cons_Inr Cons)
qed

text \<open>The tokens that a run has left unconsumed.\<close>

definition unconsumed :: "error + state \<Rightarrow> error + Token list" where
  "unconsumed r =
     (case r of
        Inl e \<Rightarrow> Inl e
      | Inr st \<Rightarrow> Inr (drop (current_token_index st) (tokens st)))"

definition delimiter :: Token where
  "delimiter = \<lparr>token_type = Separator, lexeme = ''$$''\<rparr>"

lemma parse_rat25s_end:
  assumes p: "parse_rat25s n st = Inr st'"
  shows "tokens st' = tokens st" and "current_token_index st < current_token_index st'"
    and "current_token_index st' \<le> length (tokens st)"
    and "tokens st ! (current_token_index st' - 1) = delimiter"
proof -
  have "parse_rat25s n =
      seq ([match Separator (Some ''$$''), delimiter_loop, opt_declaration_list,
            optional_delimiter, statement_list n [''$$'']] @ [match Separator (Some ''$$'')])"
    by (simp add: parse_rat25s_def)
  with p obtain s where
    s: "seq [match Separator (Some ''$$''), delimiter_loop, opt_declaration_list,
            optional_delimiter, statement_list n [''$$'']] st = Inr s"
    and m: "match Separator (Some ''$$'') s = Inr st'"
    by (auto simp: seq_append_Inr seq_Cons_Inr seq_Nil_Inr)
  have "step_rel advances (seq [delimiter_loop, opt_declaration_list,
            optional_delimiter, statement_list n [''$$'']])"
    by (intro advances_seq)
       (auto intro: step_rel_delimiter_loop [OF closed_rel_advances]
          step_rel_opt_declaration_list [OF closed_rel_advances decl_rel_advances]
          step_rel_optional_delimiter [OF closed_rel_advances] advances_statement_list)
  with s obtain s0 where m0: "match Separator (Some ''$$'') st = Inr s0" and a: "advances s0 s"
    by (auto simp: seq_Cons_Inr [of "match Separator (Some ''$$'')"] dest: step_relD)
  note f0 = match_Inr_fields [OF m0]
  note f = match_Inr_fields [OF m]
  from a have tk: "tokens s = tokens s0" and ix: "current_token_index s0 \<le> current_token_index s"
    by (simp_all add: advances_def)
  from f(1) tk f0(1) show "tokens st' = tokens st" by simp
  from f(2) ix f0(2) show "current_token_index st < current_token_index st'" by simp
  from f(2,7) tk f0(1) show "current_token_index st' \<le> length (tokens st)" by simp
  from f(8,9) have "tokens s ! current_token_index s = delimiter"
    by (simp add: delimiter_def)
  with f(2) tk f0(1) show "tokens st ! (current_token_index st' - 1) = delimiter"
    by simp
qed

text \<open>
  Claim C3, as stated.  The claim says that a run without error has consumed the whole
  token stream.  On the source text \<^verbatim>\<open>$$ print(1); $$ y\<close> the run ends without error and
  the token \<^verbatim>\<open>y\<close> is left: \<^verbatim>\<open>parse_rat25s\<close> matches the closing delimiter and returns
  without looking at what follows.
\<close>

theorem trailing_token_left:
  "unconsumed (compile ''$$ print(1); $$ y'') = Inr [\<lparr>token_type = Identifier, lexeme = ''y''\<rparr>]"
  by code_simp

text \<open>
  Claim C3, amended.  A parse without error has consumed a non-empty part of the token
  list whose last token is the program delimiter \<^verbatim>\<open>$$\<close> (what follows that delimiter is
  not looked at); and a run on a source text always ends, either so or with one error of
  the program.
\<close>

theorem run_ends_at_delimiter:
  "(parse_rat25s n st = Inr st' \<longrightarrow>
      tokens st' = tokens st \<and> current_token_index st < current_token_index st' \<and>
      current_token_index st' \<le> length (tokens st) \<and>
      tokens st ! (current_token_index st' - 1) = delimiter) \<and>
   ((\<exists>st''. compile source_code = Inr st'' \<and> tokens st'' = lexer source_code \<and>
        0 < current_token_index st'' \<and> current_token_index st'' \<le> length (lexer source_code) \<and>
        lexer source_code ! (current_token_index st'' - 1) = delimiter) \<or>
    (\<exists>e. compile source_code = Inl e \<and> e \<noteq> OutOfFuel))"
proof (intro conjI impI)
  assume "parse_rat25s n st = Inr st'"
  from parse_rat25s_end [OF this]
  show "tokens st' = tokens st" and "current_token_index st < current_token_index st'"
    and "current_token_index st' \<le> length (tokens st)"
    and "tokens st ! (current_token_index st' - 1) = delimiter" .
next
  show "(\<exists>st''. compile source_code = Inr st'' \<and> tokens st'' = lexer source_code \<and>
        0 < current_token_index st'' \<and> current_token_index st'' \<le> length (lexer source_code) \<and>
        lexer source_code ! (current_token_index st'' - 1) = delimiter) \<or>
    (\<exists>e. compile source_code = Inl e \<and> e \<noteq> OutOfFuel)"
  proof (cases "compile source_code")
    case (Inl e)
    with compile_not_out [of source_code] show ?thesis by simp
  next
    case (Inr s)
    then have "parse_rat25s (depth_bound (lexer source_code)) (reset (lexer source_code)) = Inr s"
      by (simp add: compile_def run_def)
    from parse_rat25s_end [OF this] Inr show ?thesis
      by (simp add: reset_def)
  qed
qed

theorem run_ends_at_delimiter_witness:
  "\<exists>st. compile ''$$ print(1); $$ y'' = Inr st \<and> tokens st = lexer ''$$ print(1); $$ y'' \<and>
     current_token_index st = 7 \<and>
     lexer ''$$ print(1); $$ y'' ! (current_token_index st - 1) = delimiter \<and>
     length (lexer ''$$ print(1); $$ y'') = 8"
proof -
  have "case compile ''$$ print(1); $$ y'' of
          Inl e \<Rightarrow> False
        | Inr st \<Rightarrow> current_token_index st = 7 \<and> length (lexer ''$$ print(1); $$ y'') = 8"
    by code_simp
  then obtain st where a: "compile ''$$ print(1); $$ y'' = Inr st"
    and b: "current_token_index st = 7" and c: "length (lexer ''$$ print(1); $$ y'') = 8"
    by (cases "compile ''$$ print(1); $$ y''") simp_all
  from a have "parse_rat25s (depth_bound (lexer ''$$ print(1); $$ y''))
      (reset (lexer ''$$ print(1); $$ y'')) = Inr st"
    by (simp add: compile_def run_def)
  from run_ends_at_delimiter [THEN conjunct1, rule_format, OF this] a b c show ?thesis
    by (simp add: reset_def)
qed

section \<open>Scenarios on concrete source texts\<close>

text \<open>
  Claim C4 (scenario A).  From a fresh state, the source text
  \<^verbatim>\<open>$$ integer x; $$ x = 5; print(x); $$\<close> is parsed without error; the symbol table then
  holds exactly \<^verbatim>\<open>x\<close>, at address 10000 with type \<^verbatim>\<open>integer\<close>, and the instructions are
  exactly PUSHI 5, STO x, PUSHM 10000, SOUT at positions 1 to 4; every later slot is
  empty and all tokens are consumed.
\<close>

theorem scenario_A_listing:
  "(case compile ''$$ integer x; $$ x = 5; print(x); $$'' of
      Inl e \<Rightarrow> False
    | Inr st \<Rightarrow>
        symbol_table st = [(''x'', 10000, ''integer'')] \<and>
        print_assembly st =
          [\<lparr>pos = 1, opcode = ''PUSHI'', operands = [Num 5], comment = None\<rparr>,
           \<lparr>pos = 2, opcode = ''STO'', operands = [Name ''x''], comment = Some ''x = <expr>''\<rparr>,
           \<lparr>pos = 3, opcode = ''PUSHM'', operands = [Num 10000], comment = None\<rparr>,
           \<lparr>pos = 4, opcode = ''SOUT'', operands = [], comment = None\<rparr>] \<and>
        instr_ptr st = 5 \<and>
        list_all (\<lambda>x. x = None) (drop 4 (instructions st)) \<and>
        current_token_index st = length (tokens st))"
  by code_simp

text \<open>
  Claim C1 (scenario B).  The claim expects the source text
  \<^verbatim>\<open>$$ integer x; $$ y = 5; $$\<close> to fail because \<^verbatim>\<open>y\<close> is not declared.  The program
  accepts it: \<^verbatim>\<open>assignment\<close> never looks its target up, so the run ends without error,
  with only \<^verbatim>\<open>x\<close> in the symbol table and the instructions PUSHI 5, STO y.
\<close>

theorem scenario_B_accepted:
  "(case compile ''$$ integer x; $$ y = 5; $$'' of
      Inl e \<Rightarrow> False
    | Inr st \<Rightarrow>
        symbol_table st = [(''x'', 10000, ''integer'')] \<and>
        print_assembly st =
          [\<lparr>pos = 1, opcode = ''PUSHI'', operands = [Num 5], comment = None\<rparr>,
           \<lparr>pos = 2, opcode = ''STO'', operands = [Name ''y''], comment = Some ''y = <expr>''\<rparr>])"
  by code_simp

text \<open>
  Claim C8.  The claim expects a separator token for every \<^verbatim>\<open>[\<close> and \<^verbatim>\<open>]\<close> of the source
  text.  Both are members of \<^verbatim>\<open>SEPARATORS\<close>, but \<^verbatim>\<open>token_pattern\<close> has no alternative
  that matches them, so the lexer skips them: the texts \<^verbatim>\<open>[\<close> and \<^verbatim>\<open>]\<close> give no token at
  all, and \<^verbatim>\<open>a[1]\<close> gives the two tokens of \<^verbatim>\<open>a\<close> and \<^verbatim>\<open>1\<close>.
\<close>

theorem lexer_drops_brackets:
  "lexer ''['' = [] \<and> lexer '']'' = [] \<and>
   lexer ''a[1]'' = [\<lparr>token_type = Identifier, lexeme = ''a''\<rparr>,
                     \<lparr>token_type = Integer, lexeme = ''1''\<rparr>] \<and>
   ''['' \<in> set SEPARATORS \<and> '']'' \<in> set SEPARATORS"
  by code_simp

end
